theory Spec2Isabelle
  imports Complex_Main
begin

section \<open>V2V-OSM: propagation conditions of vehicle pairs on a street network\<close>

text \<open>
  A shallow embedding of the geometric and graph core of \<^verbatim>\<open>osm_pathloss.py\<close> and of the
  \<^verbatim>\<open>Vehicles\<close> class of \<^verbatim>\<open>vehicles.py\<close>. numpy's floats are read as real numbers.
  Every exception of the Python code is a value of \<open>error\<close>; a function that can raise
  returns \<open>error + 'a\<close>, with \<open>Inl\<close> for the exception.
\<close>

datatype error = ValueError | IndexError | KeyError | NotImplementedError | NetworkXNoPath

type_synonym coord = "real \<times> real"

text \<open>The coordinate sequence of a shapely \<^verbatim>\<open>LineString\<close>.\<close>

type_synonym line = "coord list"

subsection \<open>Library geometry (shapely), over the reals\<close>

text \<open>Euclidean distance of two points (\<^verbatim>\<open>np.linalg.norm(a - b, ord=2)\<close>).\<close>

definition euclid :: "coord \<Rightarrow> coord \<Rightarrow> real" where
  "euclid a b = sqrt ((fst a - fst b)\<^sup>2 + (snd a - snd b)\<^sup>2)"

text \<open>\<^verbatim>\<open>line.length\<close>: the sum of the lengths of the segments.\<close>

fun line_length :: "line \<Rightarrow> real" where
  "line_length (a # b # cs) = euclid a b + line_length (b # cs)"
| "line_length cs = 0"

text \<open>
  The signed distance from \<open>a\<close>, along the direction \<open>a \<rightarrow> b\<close>, of the foot of the
  perpendicular from \<open>p\<close> (for \<open>a \<noteq> b\<close>).
\<close>

definition seg_param :: "coord \<Rightarrow> coord \<Rightarrow> coord \<Rightarrow> real" where
  "seg_param a b p =
     ((fst p - fst a) * (fst b - fst a) + (snd p - snd a) * (snd b - snd a)) / euclid a b"

text \<open>The point of the segment \<open>a \<rightarrow> b\<close> at distance \<open>s\<close> from \<open>a\<close>.\<close>

definition seg_point :: "coord \<Rightarrow> coord \<Rightarrow> real \<Rightarrow> coord" where
  "seg_point a b s =
     (if euclid a b = 0 then a
      else (fst a + s * (fst b - fst a) / euclid a b, snd a + s * (snd b - snd a) / euclid a b))"

text \<open>The distance along the segment of its point nearest to \<open>p\<close>.\<close>

definition seg_project :: "coord \<Rightarrow> coord \<Rightarrow> coord \<Rightarrow> real" where
  "seg_project a b p =
     (if euclid a b = 0 then 0 else max 0 (min (euclid a b) (seg_param a b p)))"

definition seg_distance :: "coord \<Rightarrow> coord \<Rightarrow> coord \<Rightarrow> real" where
  "seg_distance a b p = euclid (seg_point a b (seg_project a b p)) p"

text \<open>\<^verbatim>\<open>line.distance(point)\<close>: the least distance of the point to a segment of the line.\<close>

fun line_distance :: "line \<Rightarrow> coord \<Rightarrow> real" where
  "line_distance (a # b # cs) p =
     (if cs = [] then seg_distance a b p
      else min (seg_distance a b p) (line_distance (b # cs) p))"
| "line_distance [a] p = euclid a p"
| "line_distance [] p = 0"

text \<open>
  \<^verbatim>\<open>line.project(point)\<close>: the distance along the line of its point nearest to the given
  point. \<open>nearest_from off cs p\<close> is the pair (distance to \<open>p\<close>, distance along the line) of
  that nearest point, where the line \<open>cs\<close> starts \<open>off\<close> units along.
\<close>

fun nearest_from :: "real \<Rightarrow> line \<Rightarrow> coord \<Rightarrow> real \<times> real" where
  "nearest_from off (a # b # cs) p =
     (let here = (seg_distance a b p, off + seg_project a b p)
      in if cs = [] then here
         else let rest = nearest_from (off + euclid a b) (b # cs) p
              in if fst rest < fst here then rest else here)"
| "nearest_from off [a] p = (euclid a p, off)"
| "nearest_from off [] p = (0, off)"

definition line_project :: "line \<Rightarrow> coord \<Rightarrow> real" where
  "line_project line p = snd (nearest_from 0 line p)"

text \<open>\<^verbatim>\<open>line.interpolate(s)\<close>: the point \<open>s\<close> units along the line.\<close>

fun line_interpolate :: "line \<Rightarrow> real \<Rightarrow> coord" where
  "line_interpolate (a # b # cs) s =
     (if s \<le> euclid a b \<or> cs = [] then seg_point a b (max 0 (min (euclid a b) s))
      else line_interpolate (b # cs) (s - euclid a b))"
| "line_interpolate [a] s = a"
| "line_interpolate [] s = (0, 0)"

text \<open>
  \<^verbatim>\<open>point.buffer(r)\<close>: the disk of radius \<open>r\<close> around the point, kept as centre and
  radius.
\<close>

record circle =
  centre :: coord
  radius :: real

definition buffer :: "coord \<Rightarrow> real \<Rightarrow> circle" where
  "buffer p r = \<lparr>centre = p, radius = r\<rparr>"

text \<open>
  Where the segment \<open>a \<rightarrow> b\<close> meets the boundary of the circle: the distances from \<open>a\<close>,
  in \<open>[0, euclid a b)\<close> so that a vertex of a line counts for the segment it starts.
\<close>

definition seg_circle_hits :: "coord \<Rightarrow> coord \<Rightarrow> circle \<Rightarrow> real list" where
  "seg_circle_hits a b c =
     (if euclid a b = 0 then []
      else let t = seg_param a b (centre c);
               dd = (euclid a (centre c))\<^sup>2 - t\<^sup>2
           in if (radius c)\<^sup>2 \<le> dd then []
              else filter (\<lambda>s. 0 \<le> s \<and> s < euclid a b)
                     [t - sqrt ((radius c)\<^sup>2 - dd), t + sqrt ((radius c)\<^sup>2 - dd)])"

fun circle_hits_from :: "real \<Rightarrow> line \<Rightarrow> circle \<Rightarrow> real list" where
  "circle_hits_from off (a # b # cs) c =
     map (\<lambda>s. off + s) (seg_circle_hits a b c) @ circle_hits_from (off + euclid a b) (b # cs) c"
| "circle_hits_from off cs c = []"

text \<open>The vertices of the line that lie strictly between \<open>s\<close> and \<open>e\<close> units along it.\<close>

fun vertices_between :: "real \<Rightarrow> line \<Rightarrow> real \<Rightarrow> real \<Rightarrow> line" where
  "vertices_between off (a # b # cs) s e =
     (if s < off \<and> off < e then [a] else []) @ vertices_between (off + euclid a b) (b # cs) s e"
| "vertices_between off [a] s e = (if s < off \<and> off < e then [a] else [])"
| "vertices_between off [] s e = []"

definition substring :: "line \<Rightarrow> real \<Rightarrow> real \<Rightarrow> line" where
  "substring line s e = line_interpolate line s # vertices_between 0 line s e @ [line_interpolate line e]"

text \<open>
  \<^verbatim>\<open>ops.split(line, circle)\<close>: the line cut at every point strictly inside it where it
  meets the boundary of the circle; the parts in their order along the line. A line that
  the boundary does not cut comes back whole, as the only part. The circle is exact, where
  shapely's buffer is a polygon inscribed in it, and the line is taken not to cross
  itself: shapely cuts a line at its own crossings too.
\<close>

definition ops_split :: "line \<Rightarrow> circle \<Rightarrow> line list" where
  "ops_split line c =
     (let cuts = filter (\<lambda>s. 0 < s \<and> s < line_length line) (circle_hits_from 0 line c)
      in if cuts = [] then [line]
         else map (\<lambda>(s, e). substring line s e) (zip (0 # cuts) (cuts @ [line_length line])))"

subsection \<open>Segment split\<close>

text \<open>
  \<^verbatim>\<open>split_line_at_point(line, point)\<close>. \<^verbatim>\<open>line_split[0]\<close> and \<^verbatim>\<open>line_split[2]\<close> raise
  IndexError on a split of fewer than three parts.
\<close>

definition split_line_at_point :: "line \<Rightarrow> coord \<Rightarrow> error + (line \<times> line)" where
  "split_line_at_point line point =
     (if line_distance line point > 1 / 10 ^ 8 then Inl ValueError
      else let circle = buffer point (1 / 10 ^ 8);
               line_split = ops_split line circle
           in if length line_split < 3 then Inl IndexError
              else Inr (line_split ! 0, line_split ! 2))"

subsection \<open>Visibility classifier\<close>

text \<open>
  \<^verbatim>\<open>line_intersects_buildings(line, buildings)\<close>. \<^verbatim>\<open>line.intersects(geometry)\<close> is the
  library's predicate, the parameter \<open>intersects\<close>; the footprints are of any type.
\<close>

fun line_intersects_buildings :: "(line \<Rightarrow> 'p \<Rightarrow> bool) \<Rightarrow> line \<Rightarrow> 'p list \<Rightarrow> bool" where
  "line_intersects_buildings intersects line [] = False"
| "line_intersects_buildings intersects line (geometry # buildings) =
     (if intersects line geometry then True
      else line_intersects_buildings intersects line buildings)"

text \<open>\<^verbatim>\<open>line_intersects_points(line, points, margin)\<close>: the loop, with its break.\<close>

fun line_intersects_points :: "line \<Rightarrow> coord list \<Rightarrow> real \<Rightarrow> bool" where
  "line_intersects_points line [] margin = False"
| "line_intersects_points line (point # points) margin =
     (let proj = line_project line point;
          point_in_roi = (proj > 0 \<and> proj < line_length line);
          distance_small = (line_distance line point < margin)
      in if point_in_roi \<and> distance_small then True
         else line_intersects_points line points margin)"

text \<open>
  \<^verbatim>\<open>veh_cons_are_olos(point_own, point_vehs, margin)\<close>: for every index, the line from the
  own point to that vehicle is tested against the vehicles at all other indices
  (\<^verbatim>\<open>point_vehs[indices_other]\<close>, the mask that is False at the index only).
\<close>

definition veh_cons_are_olos :: "coord \<Rightarrow> coord list \<Rightarrow> real \<Rightarrow> bool list" where
  "veh_cons_are_olos point_own point_vehs margin =
     map (\<lambda>index. line_intersects_points [point_own, point_vehs ! index]
                     (take index point_vehs @ drop (Suc index) point_vehs) margin)
       [0 ..< length point_vehs]"

text \<open>The call without a margin: the signature's default, \<^verbatim>\<open>margin=1\<close>.\<close>

definition veh_cons_are_olos_default :: "coord \<Rightarrow> coord list \<Rightarrow> bool list" where
  "veh_cons_are_olos_default point_own point_vehs = veh_cons_are_olos point_own point_vehs 1"

subsection \<open>Angles along a route\<close>

text \<open>
  numpy's \<^verbatim>\<open>%\<close> on floats with a positive divisor, and \<^verbatim>\<open>np.arctan2(x1, x2)\<close>, the
  angle of the point \<open>(x2, x1)\<close> in \<open>(-\<pi>, \<pi>]\<close>.
\<close>

definition np_mod :: "real \<Rightarrow> real \<Rightarrow> real" where
  "np_mod x y = x - y * of_int \<lfloor>x / y\<rfloor>"

definition np_arctan2 :: "real \<Rightarrow> real \<Rightarrow> real" where
  "np_arctan2 x1 x2 =
     (if 0 < x2 then arctan (x1 / x2)
      else if x2 < 0 then (if 0 \<le> x1 then arctan (x1 / x2) + pi else arctan (x1 / x2) - pi)
      else if 0 < x1 then pi / 2
      else if x1 < 0 then - (pi / 2)
      else 0)"

definition wrap_to_pi :: "real \<Rightarrow> real" where
  "wrap_to_pi angle = np_mod (angle + pi) (2 * pi) - pi"

text \<open>
  A route is what \<^verbatim>\<open>ops.linemerge\<close> returns: one line, or a collection of lines that
  could not be merged into one (the empty collection for no lines at all). A collection
  has no \<^verbatim>\<open>coords\<close>: reading them raises NotImplementedError.
\<close>

datatype geometry = LineString line | MultiLineString "line list"

definition coords_of :: "geometry \<Rightarrow> error + line" where
  "coords_of g = (case g of LineString cs \<Rightarrow> Inr cs | MultiLineString ls \<Rightarrow> Inl NotImplementedError)"

text \<open>
  The loop of \<^verbatim>\<open>angles_along_line\<close> over \<^verbatim>\<open>enumerate(coords[1:])\<close>: \<open>coord_prev\<close> is
  \<^verbatim>\<open>coords[index]\<close>, \<open>angle_temp_prev\<close> the direction of the segment before.
\<close>

fun angles_loop :: "coord \<Rightarrow> real \<Rightarrow> nat \<Rightarrow> coord list \<Rightarrow> real list \<Rightarrow> real list" where
  "angles_loop coord_prev angle_temp_prev index [] angles = angles"
| "angles_loop coord_prev angle_temp_prev index (coord # rest) angles =
     (let angle_temp = np_arctan2 (fst coord - fst coord_prev) (snd coord - snd coord_prev);
          angles' =
            (if index \<noteq> 0 then
               (if angle_temp - angle_temp_prev < pi
                then angles[index - 1 := angle_temp - angle_temp_prev + pi]
                else angles[index - 1 := angle_temp - angle_temp_prev - pi])
             else angles)
      in angles_loop coord angle_temp (Suc index) rest angles')"

text \<open>
  \<^verbatim>\<open>angles_along_line(line)\<close>. \<^verbatim>\<open>np.zeros(len(coords) - 2)\<close> raises ValueError on a
  negative size.
\<close>

definition angles_along_line :: "geometry \<Rightarrow> error + real list" where
  "angles_along_line line =
     (case coords_of line of
        Inl e \<Rightarrow> Inl e
      | Inr coords \<Rightarrow>
          (case coords of
             [] \<Rightarrow> Inl ValueError
           | c0 # cs \<Rightarrow>
               if cs = [] then Inl ValueError
               else Inr (angles_loop c0 0 0 cs (replicate (length coords - 2) 0))))"

text \<open>Python's \<^verbatim>\<open>sum\<close>, and \<^verbatim>\<open>np.argmax\<close>: the first index of the greatest entry.\<close>

definition py_sum :: "real list \<Rightarrow> real" where
  "py_sum xs = foldl (+) 0 xs"

fun argmax_loop :: "nat \<Rightarrow> real \<Rightarrow> nat \<Rightarrow> real list \<Rightarrow> nat" where
  "argmax_loop best best_val i [] = best"
| "argmax_loop best best_val i (x # xs) =
     (if best_val < x then argmax_loop i x (Suc i) xs else argmax_loop best best_val (Suc i) xs)"

definition np_argmax :: "real list \<Rightarrow> error + nat" where
  "np_argmax xs = (case xs of [] \<Rightarrow> Inl ValueError | x # rest \<Rightarrow> Inr (argmax_loop 0 x 1 rest))"

text \<open>
  The body of the loop of \<^verbatim>\<open>check_if_cons_orthogonal\<close> from the route on: the flag
  \<^verbatim>\<open>is_orthogonal[index]\<close> and the row \<^verbatim>\<open>coords_max_angle[index, :]\<close>.
\<close>

definition orthogonal_of_route :: "real \<Rightarrow> geometry \<Rightarrow> error + (bool \<times> coord)" where
  "orthogonal_of_route max_angle route =
     (case angles_along_line route of
        Inl e \<Rightarrow> Inl e
      | Inr angles \<Rightarrow>
          (let angles_wrapped = map (\<lambda>a. pi - \<bar>wrap_to_pi a\<bar>) angles;
               sum_angles = py_sum angles_wrapped;
               is_orthogonal = (if sum_angles < max_angle then True else False)
           in case np_argmax angles_wrapped of
                Inl e \<Rightarrow> Inl e
              | Inr index_angle \<Rightarrow>
                  (case coords_of route of
                     Inl e \<Rightarrow> Inl e
                   | Inr route_coords \<Rightarrow>
                       if index_angle + 1 < length route_coords
                       then Inr (is_orthogonal, route_coords ! (index_angle + 1))
                       else Inl IndexError)))"

subsection \<open>Street graph\<close>

text \<open>
  A networkx \<^verbatim>\<open>MultiGraph\<close>: the nodes in their order, each with its coordinates
  (\<^verbatim>\<open>'x'\<close>, \<^verbatim>\<open>'y'\<close>) when it has them; the edges in the order they were added, each with
  its end nodes, its key among the parallel edges and the attributes \<^verbatim>\<open>'length'\<close> and
  \<^verbatim>\<open>'geometry'\<close>; and the graph attribute \<^verbatim>\<open>'node_veh'\<close> of a vehicle's local graph.
  Intersections are named by their number, vehicles by theirs (\<^verbatim>\<open>'v' + str(iteration)\<close>).
\<close>

datatype node = Intersection int | Vehicle nat

record edge =
  edge_u :: node
  edge_v :: node
  edge_key :: nat
  edge_length :: real
  edge_geometry :: line

record graph =
  gnodes :: "(node \<times> coord option) list"
  gedges :: "edge list"
  node_veh :: "node option"

text \<open>An undirected edge joins \<open>u\<close> and \<open>v\<close> in either order.\<close>

definition joins :: "node \<Rightarrow> node \<Rightarrow> edge \<Rightarrow> bool" where
  "joins u v e = ((edge_u e = u \<and> edge_v e = v) \<or> (edge_u e = v \<and> edge_v e = u))"

definition has_edge :: "graph \<Rightarrow> node \<Rightarrow> node \<Rightarrow> bool" where
  "has_edge g u v = list_ex (joins u v) (gedges g)"

definition has_node :: "graph \<Rightarrow> node \<Rightarrow> bool" where
  "has_node g n = list_ex (\<lambda>m. fst m = n) (gnodes g)"

text \<open>
  \<^verbatim>\<open>graph.add_edge(u, v, attr_dict=...)\<close>: end nodes the graph does not have are added,
  without attributes; the new edge gets the first key from the number of parallel edges
  on that is not in use.
\<close>

definition add_node :: "graph \<Rightarrow> node \<Rightarrow> graph" where
  "add_node g n = (if has_node g n then g else g\<lparr>gnodes := gnodes g @ [(n, None)]\<rparr>)"

definition new_key :: "nat list \<Rightarrow> nat" where
  "new_key keys =
     (case find (\<lambda>k. k \<notin> set keys) [length keys ..< Suc (2 * length keys)] of
        Some k \<Rightarrow> k
      | None \<Rightarrow> Suc (2 * length keys))"

definition add_edge :: "graph \<Rightarrow> node \<Rightarrow> node \<Rightarrow> real \<Rightarrow> line \<Rightarrow> graph" where
  "add_edge g u v len geometry =
     (let g' = add_node (add_node g u) v;
          key = new_key (map edge_key (filter (joins u v) (gedges g')))
      in g'\<lparr>gedges := gedges g' @
            [\<lparr>edge_u = u, edge_v = v, edge_key = key, edge_length = len, edge_geometry = geometry\<rparr>]\<rparr>)"

subsection \<open>Visibility graph builder\<close>

text \<open>
  \<^verbatim>\<open>add_edges_if_los(graph, buildings, max_distance)\<close>. The inner loop runs over the
  nodes after \<open>node_u\<close> (\<^verbatim>\<open>graph.nodes()[index + 1:]\<close>), the outer loop over all nodes;
  the graph is updated in place, so each loop hands the graph on. Reading \<^verbatim>\<open>'x'\<close> of a
  node without coordinates raises KeyError.
\<close>

fun add_edges_inner ::
  "(line \<Rightarrow> 'p \<Rightarrow> bool) \<Rightarrow> 'p list \<Rightarrow> real \<Rightarrow> node \<Rightarrow> coord \<Rightarrow>
   (node \<times> coord option) list \<Rightarrow> graph \<Rightarrow> error + graph" where
  "add_edges_inner intersects buildings max_distance node_u coords_u [] g = Inr g"
| "add_edges_inner intersects buildings max_distance node_u coords_u ((node_v, xy) # rest) g =
     (if has_edge g node_u node_v
      then add_edges_inner intersects buildings max_distance node_u coords_u rest g
      else case xy of
        None \<Rightarrow> Inl KeyError
      | Some coords_v \<Rightarrow>
          (let distance = euclid coords_u coords_v
           in if distance > max_distance
              then add_edges_inner intersects buildings max_distance node_u coords_u rest g
              else if line_intersects_buildings intersects [coords_u, coords_v] buildings
              then add_edges_inner intersects buildings max_distance node_u coords_u rest g
              else add_edges_inner intersects buildings max_distance node_u coords_u rest
                     (add_edge g node_u node_v distance [coords_u, coords_v])))"

fun add_edges_outer ::
  "(line \<Rightarrow> 'p \<Rightarrow> bool) \<Rightarrow> 'p list \<Rightarrow> real \<Rightarrow> (node \<times> coord option) list \<Rightarrow> graph \<Rightarrow>
   error + graph" where
  "add_edges_outer intersects buildings max_distance [] g = Inr g"
| "add_edges_outer intersects buildings max_distance ((node_u, xy) # rest) g =
     (case xy of
        None \<Rightarrow> Inl KeyError
      | Some coords_u \<Rightarrow>
          (case add_edges_inner intersects buildings max_distance node_u coords_u rest g of
             Inl e \<Rightarrow> Inl e
           | Inr g' \<Rightarrow> add_edges_outer intersects buildings max_distance rest g'))"

definition add_edges_if_los ::
  "(line \<Rightarrow> 'p \<Rightarrow> bool) \<Rightarrow> graph \<Rightarrow> 'p list \<Rightarrow> real \<Rightarrow> error + graph" where
  "add_edges_if_los intersects g buildings max_distance =
     add_edges_outer intersects buildings max_distance (gnodes g) g"

text \<open>The call without a maximum distance: the signature's default, \<^verbatim>\<open>max_distance=50\<close>.\<close>

definition add_edges_if_los_default ::
  "(line \<Rightarrow> 'p \<Rightarrow> bool) \<Rightarrow> graph \<Rightarrow> 'p list \<Rightarrow> error + graph" where
  "add_edges_if_los_default intersects g buildings = add_edges_if_los intersects g buildings 50"

text \<open>
  The edges the builder is to add, read off the graph it starts from: for every node
  \<open>u\<close> and every node \<open>n\<close> after it, in the order of the nodes, the straight edge
  between them, when no edge joins them yet, they are at most the maximum distance apart
  and the straight line between them intersects no building.
\<close>

definition qualifies ::
  "(line \<Rightarrow> 'p \<Rightarrow> bool) \<Rightarrow> 'p list \<Rightarrow> real \<Rightarrow> graph \<Rightarrow> node \<Rightarrow> coord \<Rightarrow> node \<times> coord option \<Rightarrow> bool" where
  "qualifies intersects buildings max_distance g u cu n =
     (case snd n of
        None \<Rightarrow> False
      | Some cv \<Rightarrow> \<not> has_edge g u (fst n) \<and> euclid cu cv \<le> max_distance
                   \<and> \<not> line_intersects_buildings intersects [cu, cv] buildings)"

definition straight_edge :: "node \<Rightarrow> coord \<Rightarrow> node \<times> coord option \<Rightarrow> edge" where
  "straight_edge u cu n =
     \<lparr>edge_u = u, edge_v = fst n, edge_key = 0, edge_length = euclid cu (the (snd n)),
      edge_geometry = [cu, the (snd n)]\<rparr>"

fun visible_edges ::
  "(line \<Rightarrow> 'p \<Rightarrow> bool) \<Rightarrow> 'p list \<Rightarrow> real \<Rightarrow> graph \<Rightarrow> (node \<times> coord option) list \<Rightarrow> edge list" where
  "visible_edges intersects buildings max_distance g [] = []"
| "visible_edges intersects buildings max_distance g (n # rest) =
     map (straight_edge (fst n) (the (snd n)))
       (filter (qualifies intersects buildings max_distance g (fst n) (the (snd n))) rest)
     @ visible_edges intersects buildings max_distance g rest"

text \<open>The \<open>i\<close>-th node of a graph and its coordinates.\<close>

definition node_at :: "graph \<Rightarrow> nat \<Rightarrow> node" where
  "node_at g i = fst (gnodes g ! i)"

definition coord_at :: "graph \<Rightarrow> nat \<Rightarrow> coord" where
  "coord_at g i = the (snd (gnodes g ! i))"

subsection \<open>Routes\<close>

text \<open>
  The library functions whose results the analyzer uses as they come:
  \<^verbatim>\<open>nx.compose(G, H)\<close>, the graph composed of two graphs; \<^verbatim>\<open>nx.shortest_path\<close> with the
  weight \<^verbatim>\<open>'length'\<close>, the nodes of a shortest path or the exception it raises
  (NetworkXNoPath when no path joins the two nodes); and \<^verbatim>\<open>ops.linemerge\<close>.
\<close>

record library =
  compose :: "graph \<Rightarrow> graph \<Rightarrow> graph"
  shortest_path :: "graph \<Rightarrow> node \<Rightarrow> node \<Rightarrow> error + node list"
  linemerge :: "line list \<Rightarrow> geometry"

text \<open>
  \<^verbatim>\<open>min(graph.edge[u][v].values(), key=lambda x: x['length'])\<close>: the first of the parallel
  edges of least length; \<^verbatim>\<open>graph.edge[u][v]\<close> raises KeyError when no edge joins the nodes.
\<close>

fun min_by_length :: "edge \<Rightarrow> edge list \<Rightarrow> edge" where
  "min_by_length best [] = best"
| "min_by_length best (e # es) =
     (if edge_length e < edge_length best then min_by_length e es else min_by_length best es)"

fun route_lines :: "graph \<Rightarrow> (node \<times> node) list \<Rightarrow> error + line list" where
  "route_lines g [] = Inr []"
| "route_lines g ((u_node, v_node) # edge_nodes) =
     (case filter (joins u_node v_node) (gedges g) of
        [] \<Rightarrow> Inl KeyError
      | e # es \<Rightarrow>
          (case route_lines g edge_nodes of
             Inl err \<Rightarrow> Inl err
           | Inr lines \<Rightarrow> Inr (edge_geometry (min_by_length e es) # lines)))"

definition line_route_between_nodes ::
  "library \<Rightarrow> node \<Rightarrow> node \<Rightarrow> graph \<Rightarrow> error + geometry" where
  "line_route_between_nodes lib node_from node_to g =
     (case shortest_path lib g node_from node_to of
        Inl e \<Rightarrow> Inl e
      | Inr route \<Rightarrow>
          (case route_lines g (zip (butlast route) (tl route)) of
             Inl e \<Rightarrow> Inl e
           | Inr lines \<Rightarrow> Inr (linemerge lib lines)))"

subsection \<open>Orthogonality analyzer\<close>

text \<open>
  Python's graphs are objects: a variable holds a reference. The heap maps references to
  graphs; the references below \<open>next_ref\<close> are the allocated ones. \<^verbatim>\<open>nx.compose\<close> builds
  its result in a new object.
\<close>

record heap =
  objs :: "nat \<Rightarrow> graph"
  next_ref :: nat

definition nx_compose :: "library \<Rightarrow> nat \<Rightarrow> nat \<Rightarrow> heap \<Rightarrow> nat \<times> heap" where
  "nx_compose lib G H h =
     (next_ref h,
      h\<lparr>objs := (objs h)(next_ref h := compose lib (objs h G) (objs h H)),
        next_ref := Suc (next_ref h)\<rparr>)"

text \<open>
  The loop of \<^verbatim>\<open>check_if_cons_orthogonal\<close> over \<^verbatim>\<open>graphs_veh_other\<close>; an exception ends
  it. The results are the pairs of \<^verbatim>\<open>is_orthogonal[index]\<close> and
  \<^verbatim>\<open>coords_max_angle[index, :]\<close>.
\<close>

fun check_loop ::
  "library \<Rightarrow> real \<Rightarrow> node \<Rightarrow> nat \<Rightarrow> nat list \<Rightarrow> heap \<Rightarrow> (error + (bool \<times> coord) list) \<times> heap" where
  "check_loop lib max_angle node_own streets_wave_local [] h = (Inr [], h)"
| "check_loop lib max_angle node_own streets_wave_local (graph # graphs) h =
     (case node_veh (objs h graph) of
        None \<Rightarrow> (Inl KeyError, h)
      | Some node_v \<Rightarrow>
          (case nx_compose lib graph streets_wave_local h of
             (streets_wave_local_iter, h1) \<Rightarrow>
               (case line_route_between_nodes lib node_own node_v (objs h1 streets_wave_local_iter) of
                  Inl e \<Rightarrow> (Inl e, h1)
                | Inr route \<Rightarrow>
                    (case orthogonal_of_route max_angle route of
                       Inl e \<Rightarrow> (Inl e, h1)
                     | Inr r \<Rightarrow>
                         (case check_loop lib max_angle node_own streets_wave_local graphs h1 of
                            (Inl e, h2) \<Rightarrow> (Inl e, h2)
                          | (Inr rs, h2) \<Rightarrow> (Inr (r # rs), h2))))))"

text \<open>
  \<^verbatim>\<open>check_if_cons_orthogonal(streets_wave, graph_veh_own, graphs_veh_other, max_angle)\<close>,
  on references into the heap; it returns the arrays \<^verbatim>\<open>is_orthogonal\<close> and
  \<^verbatim>\<open>coords_max_angle\<close>, or the exception, and the heap it leaves.
\<close>

definition check_if_cons_orthogonal ::
  "library \<Rightarrow> nat \<Rightarrow> nat \<Rightarrow> nat list \<Rightarrow> real \<Rightarrow> heap \<Rightarrow>
   (error + (bool list \<times> coord list)) \<times> heap" where
  "check_if_cons_orthogonal lib streets_wave graph_veh_own graphs_veh_other max_angle h =
     (case node_veh (objs h graph_veh_own) of
        None \<Rightarrow> (Inl KeyError, h)
      | Some node_own \<Rightarrow>
          (case nx_compose lib graph_veh_own streets_wave h of
             (streets_wave_local, h1) \<Rightarrow>
               (case check_loop lib max_angle node_own streets_wave_local graphs_veh_other h1 of
                  (Inl e, h2) \<Rightarrow> (Inl e, h2)
                | (Inr rs, h2) \<Rightarrow> (Inr (map fst rs, map snd rs), h2))))"

text \<open>The call without a maximum angle: the signature's default, \<^verbatim>\<open>max_angle=np.pi\<close>.\<close>

definition check_if_cons_orthogonal_default ::
  "library \<Rightarrow> nat \<Rightarrow> nat \<Rightarrow> nat list \<Rightarrow> heap \<Rightarrow> (error + (bool list \<times> coord list)) \<times> heap" where
  "check_if_cons_orthogonal_default lib streets_wave graph_veh_own graphs_veh_other h =
     check_if_cons_orthogonal lib streets_wave graph_veh_own graphs_veh_other pi h"

text \<open>
  The route of one pair, on graphs as values: the shortest route from the own vehicle's
  node to the other's in the other's local graph composed with the own local graph
  composed with the street graph.
\<close>

definition pair_route :: "library \<Rightarrow> graph \<Rightarrow> graph \<Rightarrow> graph \<Rightarrow> error + geometry" where
  "pair_route lib streets own other =
     (case node_veh own of
        None \<Rightarrow> Inl KeyError
      | Some node_own \<Rightarrow>
          (case node_veh other of
             None \<Rightarrow> Inl KeyError
           | Some node_v \<Rightarrow>
               line_route_between_nodes lib node_own node_v
                 (compose lib other (compose lib own streets))))"

text \<open>
  \<open>\<pi>\<close> minus the magnitude of each wrapped angle: the array that
  \<open>check_if_cons_orthogonal\<close> sums.
\<close>

definition contributions_of :: "real list \<Rightarrow> real list" where
  "contributions_of angles = map (\<lambda>a. pi - \<bar>wrap_to_pi a\<bar>) angles"

text \<open>
  The working graph of one pair, on graphs as values: the other vehicle's local graph
  composed with the own local graph composed with the street graph.
\<close>

definition working_graph :: "library \<Rightarrow> graph \<Rightarrow> graph \<Rightarrow> graph \<Rightarrow> graph" where
  "working_graph lib streets own other = compose lib other (compose lib own streets)"

text \<open>
  An edge of least \<^verbatim>\<open>'length'\<close> among the edges of the graph that join \<open>u\<close> and \<open>v\<close>.
\<close>

definition least_edge :: "graph \<Rightarrow> node \<Rightarrow> node \<Rightarrow> edge \<Rightarrow> bool" where
  "least_edge g u v e =
     (e \<in> set (gedges g) \<and> joins u v e
      \<and> list_all (\<lambda>e'. edge_length e \<le> edge_length e') (filter (joins u v) (gedges g)))"

text \<open>
  The turn of a line at its interior vertices, from the coordinates alone. The direction
  of a segment is its angle as \<^verbatim>\<open>np.arctan2\<close> measures it from the differences of the
  coordinates. At the interior vertex \<open>k + 1\<close> the direction changes by the direction of
  the segment that leaves the vertex minus the direction of the segment that reaches it.
  The turn contribution of the vertex is the magnitude of this change, wrapped by
  \<open>wrap_to_pi\<close>: 0 where the line goes straight on, \<open>\<pi>\<close> where it turns back.
\<close>

definition bearing :: "coord \<Rightarrow> coord \<Rightarrow> real" where
  "bearing a b = np_arctan2 (fst b - fst a) (snd b - snd a)"

definition direction_change :: "line \<Rightarrow> nat \<Rightarrow> real" where
  "direction_change cs k = bearing (cs ! Suc k) (cs ! Suc (Suc k)) - bearing (cs ! k) (cs ! Suc k)"

definition turn_contribution :: "line \<Rightarrow> nat \<Rightarrow> real" where
  "turn_contribution cs k = \<bar>wrap_to_pi (direction_change cs k)\<bar>"

text \<open>
  The entry that the loop of \<^verbatim>\<open>angles_along_line\<close> stores for the interior vertex
  \<open>k + 1\<close>, in closed form.
\<close>

definition stored_angle :: "line \<Rightarrow> nat \<Rightarrow> real" where
  "stored_angle cs k =
     (if direction_change cs k < pi then direction_change cs k + pi
      else direction_change cs k - pi)"

subsection \<open>Vehicles\<close>

text \<open>
  What \<^verbatim>\<open>add_key\<close> stores under a key and numpy takes as an index: an array of integer
  indices (negative ones count from the end) or a boolean mask.
\<close>

datatype index_set = Indices "int list" | Mask "bool list"

record vehicles =
  count :: nat
  points :: "coord list"
  coordinates :: "real list \<times> real list"
  graphs :: "graph list option"
  pathlosses :: "real list"
  distances :: "real list"
  nlos :: "bool list"
  idxs :: "string \<Rightarrow> index_set option"

definition add_key :: "vehicles \<Rightarrow> string \<Rightarrow> index_set \<Rightarrow> vehicles" where
  "add_key self key val = self\<lparr>idxs := (idxs self)(key \<mapsto> val)\<rparr>"

text \<open>
  The positions of an array of \<open>n\<close> entries that an index addresses, in the order numpy
  assigns them. An integer outside \<open>[-n, n)\<close>, or a mask of another length than \<open>n\<close>,
  raises IndexError.
\<close>

fun index_position :: "nat \<Rightarrow> int \<Rightarrow> error + nat" where
  "index_position n i =
     (if 0 \<le> i \<and> i < int n then Inr (nat i)
      else if - int n \<le> i \<and> i < 0 then Inr (nat (int n + i))
      else Inl IndexError)"

fun int_positions :: "nat \<Rightarrow> int list \<Rightarrow> error + nat list" where
  "int_positions n [] = Inr []"
| "int_positions n (i # is) =
     (case index_position n i of
        Inl e \<Rightarrow> Inl e
      | Inr p \<Rightarrow> (case int_positions n is of Inl e \<Rightarrow> Inl e | Inr ps \<Rightarrow> Inr (p # ps)))"

definition positions :: "nat \<Rightarrow> index_set \<Rightarrow> error + nat list" where
  "positions n ix =
     (case ix of
        Indices is \<Rightarrow> int_positions n is
      | Mask bs \<Rightarrow>
          if length bs = n then Inr (filter (\<lambda>p. bs ! p) [0 ..< n]) else Inl IndexError)"

text \<open>
  \<^verbatim>\<open>arr[ix] = values\<close>: the values are as many as the positions, or one value for all of
  them (else ValueError); they are stored in order, so the last one stored at a position
  stays. For an array of integer indices numpy fits the values to the indices before it
  checks the range of the indices; the length of a mask is checked first.
\<close>

fun store_all :: "(nat \<times> real) list \<Rightarrow> real list \<Rightarrow> real list" where
  "store_all [] arr = arr"
| "store_all ((p, x) # pxs) arr = store_all pxs (arr[p := x])"

definition shape_mismatch :: "index_set \<Rightarrow> real list \<Rightarrow> bool" where
  "shape_mismatch ix values =
     (case ix of
        Indices is \<Rightarrow> length values \<noteq> length is \<and> length values \<noteq> 1
      | Mask bs \<Rightarrow> False)"

definition np_setitem :: "real list \<Rightarrow> index_set \<Rightarrow> real list \<Rightarrow> error + real list" where
  "np_setitem arr ix values =
     (if shape_mismatch ix values then Inl ValueError
      else case positions (length arr) ix of
        Inl e \<Rightarrow> Inl e
      | Inr ps \<Rightarrow>
          if length values = length ps then Inr (store_all (zip ps values) arr)
          else if length values = 1 then Inr (store_all (map (\<lambda>p. (p, hd values)) ps) arr)
          else Inl ValueError)"

text \<open>\<^verbatim>\<open>Vehicles.set_pathlosses(key, values)\<close>; an unknown key raises KeyError.\<close>

definition set_pathlosses :: "vehicles \<Rightarrow> string \<Rightarrow> real list \<Rightarrow> error + vehicles" where
  "set_pathlosses self key values =
     (case idxs self key of
        None \<Rightarrow> Inl KeyError
      | Some ix \<Rightarrow>
          (case np_setitem (pathlosses self) ix values of
             Inl e \<Rightarrow> Inl e
           | Inr arr \<Rightarrow> Inr (self\<lparr>pathlosses := arr\<rparr>)))"

subsection \<open>Example inputs\<close>

text \<open>
  Three vehicles with a zeroed relation table, and the key \<^verbatim>\<open>'nlos'\<close> registered for the
  first and the last entry.
\<close>

definition example_vehicles :: vehicles where
  "example_vehicles =
     add_key
       \<lparr>count = 3, points = [(0, 0), (1, 0), (2, 0)], coordinates = ([0, 1, 2], [0, 0, 0]),
        graphs = None, pathlosses = [0, 0, 0], distances = [0, 0, 0],
        nlos = [False, False, False], idxs = (\<lambda>k. None)\<rparr>
       ''nlos'' (Indices [0, - 1])"

text \<open>
  An instance of the library for the examples: the union of two graphs, the direct route
  between two adjacent nodes, and the merge of a single line, which is that line.
\<close>

definition example_library :: library where
  "example_library =
     \<lparr>compose = (\<lambda>G H. \<lparr>gnodes = gnodes H @ filter (\<lambda>n. \<not> has_node H (fst n)) (gnodes G),
                         gedges = gedges H @ gedges G,
                         node_veh = (case node_veh H of None \<Rightarrow> node_veh G | Some n \<Rightarrow> Some n)\<rparr>),
      shortest_path = (\<lambda>g a b. if has_edge g a b then Inr [a, b] else Inl NetworkXNoPath),
      linemerge = (\<lambda>lines. case lines of [l] \<Rightarrow> LineString l | _ \<Rightarrow> MultiLineString lines)\<rparr>"

text \<open>
  A heap of three graphs: at reference 0 a graph in which one edge, of the given
  geometry, joins the nodes of two vehicles; at 1 and 2 the local graphs of the two
  vehicles, reduced to their nodes.
\<close>

definition example_heap :: "line \<Rightarrow> heap" where
  "example_heap geometry =
     \<lparr>objs = (\<lambda>r. if r = 0 then
                      \<lparr>gnodes = [(Vehicle 0, None), (Vehicle 1, None)],
                       gedges = [\<lparr>edge_u = Vehicle 0, edge_v = Vehicle 1, edge_key = 0,
                                  edge_length = line_length geometry, edge_geometry = geometry\<rparr>],
                       node_veh = None\<rparr>
                    else if r = 1 then
                      \<lparr>gnodes = [(Vehicle 0, None)], gedges = [], node_veh = Some (Vehicle 0)\<rparr>
                    else
                      \<lparr>gnodes = [(Vehicle 1, None)], gedges = [], node_veh = Some (Vehicle 1)\<rparr>),
      next_ref = 3\<rparr>"

text \<open>
  A street graph of four intersections and no streets. A footprint of the examples is the
  list of the lines it blocks; one building blocks the line from the first intersection
  to the fourth.
\<close>

definition example_streets :: graph where
  "example_streets =
     \<lparr>gnodes = [(Intersection 1, Some (0, 0)), (Intersection 2, Some (30, 0)),
                (Intersection 3, Some (100, 0)), (Intersection 4, Some (0, 40))],
      gedges = [], node_veh = None\<rparr>"

definition blocks :: "line \<Rightarrow> line list \<Rightarrow> bool" where
  "blocks line footprint = list_ex (\<lambda>l. l = line) footprint"

definition example_buildings :: "line list list" where
  "example_buildings = [[[(0, 0), (0, 40)]]]"

text \<open>
  A second library instance, with a search for the shortest path: all simple paths from
  one node to the other, each hop as long as the shortest edge between its nodes, and the
  first path of least length among them. Lines are merged by chaining them, a point
  shared by two lines in a row taken once.
\<close>

definition neighbours :: "graph \<Rightarrow> node \<Rightarrow> node list" where
  "neighbours g u =
     remdups (map (\<lambda>e. if edge_u e = u then edge_v e else edge_u e)
                (filter (\<lambda>e. edge_u e = u \<or> edge_v e = u) (gedges g)))"

fun simple_paths :: "nat \<Rightarrow> graph \<Rightarrow> node \<Rightarrow> node list \<Rightarrow> node \<Rightarrow> node list list" where
  "simple_paths 0 g b seen u = []"
| "simple_paths (Suc n) g b seen u =
     (if u = b then [[u]]
      else concat (map (\<lambda>v. map ((#) u) (simple_paths n g b (u # seen) v))
                     (filter (\<lambda>v. v \<notin> set (u # seen)) (neighbours g u))))"

definition hop_length :: "graph \<Rightarrow> node \<Rightarrow> node \<Rightarrow> real" where
  "hop_length g u v =
     (case filter (joins u v) (gedges g) of [] \<Rightarrow> 0 | e # es \<Rightarrow> edge_length (min_by_length e es))"

fun path_length :: "graph \<Rightarrow> node list \<Rightarrow> real" where
  "path_length g (u # v # rest) = hop_length g u v + path_length g (v # rest)"
| "path_length g path = 0"

fun least_path :: "graph \<Rightarrow> node list \<Rightarrow> node list list \<Rightarrow> node list" where
  "least_path g best [] = best"
| "least_path g best (p # ps) =
     (if path_length g p < path_length g best then least_path g p ps else least_path g best ps)"

definition search_shortest_path :: "graph \<Rightarrow> node \<Rightarrow> node \<Rightarrow> error + node list" where
  "search_shortest_path g a b =
     (case simple_paths (length (gnodes g)) g b [] a of
        [] \<Rightarrow> Inl NetworkXNoPath
      | p # ps \<Rightarrow> Inr (least_path g p ps))"

definition route_library :: library where
  "route_library =
     \<lparr>compose = compose example_library,
      shortest_path = search_shortest_path,
      linemerge = (\<lambda>lines. LineString (remdups_adj (concat lines)))\<rparr>"

text \<open>
  A heap of three graphs. At reference 0 the street graph: four intersections, joined in
  a row, the second and the third by two parallel streets of lengths 25 and 10. At 1 the
  local graph of vehicle 0, which stands between the first two intersections; at 2 the
  local graph of vehicle 1, which stands between the last two.
\<close>

definition street_edge :: "int \<Rightarrow> int \<Rightarrow> nat \<Rightarrow> real \<Rightarrow> line \<Rightarrow> edge" where
  "street_edge u v key len geometry =
     \<lparr>edge_u = Intersection u, edge_v = Intersection v, edge_key = key, edge_length = len,
      edge_geometry = geometry\<rparr>"

definition vehicle_edge :: "nat \<Rightarrow> int \<Rightarrow> real \<Rightarrow> line \<Rightarrow> edge" where
  "vehicle_edge n v len geometry =
     \<lparr>edge_u = Vehicle n, edge_v = Intersection v, edge_key = 0, edge_length = len,
      edge_geometry = geometry\<rparr>"

definition route_heap :: heap where
  "route_heap =
     \<lparr>objs = (\<lambda>r. if r = 0 then
                      \<lparr>gnodes = [(Intersection 0, Some (- 10, 0)), (Intersection 1, Some (10, 0)),
                                 (Intersection 2, Some (10, 10)), (Intersection 3, Some (10, 30))],
                       gedges = [street_edge 0 1 0 20 [(- 10, 0), (10, 0)],
                                 street_edge 1 2 0 25 [(10, 0), (20, 5), (10, 10)],
                                 street_edge 1 2 1 10 [(10, 0), (10, 10)],
                                 street_edge 2 3 0 20 [(10, 10), (10, 30)]],
                       node_veh = None\<rparr>
                    else if r = 1 then
                      \<lparr>gnodes = [(Vehicle 0, Some (0, 0)), (Intersection 0, None),
                                 (Intersection 1, None)],
                       gedges = [vehicle_edge 0 0 10 [(- 10, 0), (0, 0)],
                                 vehicle_edge 0 1 10 [(0, 0), (10, 0)]],
                       node_veh = Some (Vehicle 0)\<rparr>
                    else
                      \<lparr>gnodes = [(Vehicle 1, Some (10, 20)), (Intersection 2, None),
                                 (Intersection 3, None)],
                       gedges = [vehicle_edge 1 2 10 [(10, 10), (10, 20)],
                                 vehicle_edge 1 3 10 [(10, 20), (10, 30)]],
                       node_veh = Some (Vehicle 1)\<rparr>),
      next_ref = 3\<rparr>"

section \<open>Properties\<close>

subsection \<open>Angle wrapping\<close>

lemma np_mod_range:
  assumes "0 < y"
  shows "0 \<le> np_mod x y" and "np_mod x y < y"
proof -
  from floor_divide_lower[OF assms, of x] show "0 \<le> np_mod x y"
    by (simp add: np_mod_def mult.commute)
  from floor_divide_upper[OF assms, of x] show "np_mod x y < y"
    by (simp add: np_mod_def algebra_simps)
qed

text \<open>
  C8, as the code has it: for every real angle \<open>a\<close>, \<open>wrap_to_pi a\<close> lies in the half-open
  interval \<open>[-\<pi>, \<pi>)\<close>, closed at \<open>-\<pi>\<close> and open at \<open>\<pi>\<close>, and differs from \<open>a\<close> by an
  integer multiple of \<open>2\<pi>\<close>.
\<close>

theorem wrap_to_pi_range:
  "- pi \<le> wrap_to_pi a \<and> wrap_to_pi a < pi \<and> (\<exists>k::int. wrap_to_pi a - a = 2 * pi * of_int k)"
proof -
  have "0 \<le> np_mod (a + pi) (2 * pi)" and "np_mod (a + pi) (2 * pi) < 2 * pi"
    using np_mod_range[of "2 * pi" "a + pi"] by simp_all
  moreover have "wrap_to_pi a - a = 2 * pi * of_int (- \<lfloor>(a + pi) / (2 * pi)\<rfloor>)"
    by (simp add: wrap_to_pi_def np_mod_def)
  ultimately show ?thesis
    unfolding wrap_to_pi_def by (intro conjI exI[of _ "- \<lfloor>(a + pi) / (2 * pi)\<rfloor>"]) simp_all
qed

text \<open>
  C8 as stated fails at the angle \<open>\<pi>\<close>: it is wrapped to \<open>-\<pi>\<close>, which is outside
  \<open>(-\<pi>, \<pi>]\<close>.
\<close>

theorem wrap_to_pi_at_pi: "\<not> (- pi < wrap_to_pi pi \<and> wrap_to_pi pi \<le> pi)"
  by (simp add: wrap_to_pi_def np_mod_def)

subsection \<open>Vehicles: the frame of \<open>set_pathlosses\<close>\<close>

lemma store_all_length: "length (store_all pxs arr) = length arr"
  by (induction pxs arr rule: store_all.induct) simp_all

lemma store_all_other: "i \<notin> fst ` set pxs \<Longrightarrow> store_all pxs arr ! i = arr ! i"
proof (induction pxs arr rule: store_all.induct)
  case (1 arr)
  then show ?case by simp
next
  case (2 p x pxs arr)
  then have "i \<noteq> p" and "i \<notin> fst ` set pxs" by auto
  with 2 show ?case by simp
qed

lemma np_setitem_frame:
  assumes "positions (length arr) ix = Inr ps" and "np_setitem arr ix values = Inr arr'"
  shows "length arr' = length arr" and "i \<notin> set ps \<Longrightarrow> arr' ! i = arr ! i"
proof -
  from assms have cases: "arr' = store_all (zip ps values) arr \<and> length values = length ps
      \<or> arr' = store_all (map (\<lambda>p. (p, hd values)) ps) arr"
    by (auto simp: np_setitem_def split: if_splits)
  then show "length arr' = length arr" by (auto simp: store_all_length)
  assume i: "i \<notin> set ps"
  have "i \<notin> fst ` set (zip ps values)" using i by (auto dest: set_zip_leftD)
  moreover have "i \<notin> fst ` set (map (\<lambda>p. (p, hd values)) ps)" using i by auto
  ultimately show "arr' ! i = arr ! i" using cases by (auto simp: store_all_other)
qed

lemma int_positions_length: "int_positions n js = Inr ps \<Longrightarrow> length ps = length js"
  by (induction js arbitrary: ps) (auto split: sum.splits if_splits)

lemma np_setitem_total:
  assumes "positions (length arr) ix = Inr ps" and "length values = length ps \<or> length values = 1"
  shows "\<exists>arr'. np_setitem arr ix values = Inr arr'"
proof -
  have "\<not> shape_mismatch ix values"
    using assms int_positions_length[of "length arr" _ ps]
    by (auto simp: shape_mismatch_def positions_def split: index_set.splits)
  with assms show ?thesis by (auto simp: np_setitem_def)
qed

text \<open>
  C10: for a registered key whose index addresses valid positions \<open>ps\<close> of the pathloss
  table, \<open>set_pathlosses\<close> returns when the values fit the index (as many values as
  positions, or one value), and whenever it returns, the pathloss table keeps its length
  and every entry at a position outside \<open>ps\<close>, and the fields \<open>distances\<close>, \<open>nlos\<close>,
  \<open>points\<close>, \<open>graphs\<close>, \<open>idxs\<close>, \<open>count\<close> and \<open>coordinates\<close> are unchanged.
\<close>

theorem set_pathlosses_frame:
  assumes "idxs self key = Some ix"
    and "positions (length (pathlosses self)) ix = Inr ps"
  shows "(length values = length ps \<or> length values = 1 \<longrightarrow>
            (\<exists>self'. set_pathlosses self key values = Inr self'))
       \<and> (\<forall>self'. set_pathlosses self key values = Inr self' \<longrightarrow>
            length (pathlosses self') = length (pathlosses self)
          \<and> (\<forall>i. i \<notin> set ps \<longrightarrow> pathlosses self' ! i = pathlosses self ! i)
          \<and> distances self' = distances self \<and> nlos self' = nlos self
          \<and> points self' = points self \<and> graphs self' = graphs self
          \<and> idxs self' = idxs self \<and> count self' = count self
          \<and> coordinates self' = coordinates self)"
proof (intro conjI impI allI)
  assume "length values = length ps \<or> length values = 1"
  from np_setitem_total[OF assms(2) this] obtain arr'
    where "np_setitem (pathlosses self) ix values = Inr arr'" ..
  then show "\<exists>self'. set_pathlosses self key values = Inr self'"
    using assms(1) by (simp add: set_pathlosses_def)
next
  fix self' assume r: "set_pathlosses self key values = Inr self'"
  then obtain arr' where a: "np_setitem (pathlosses self) ix values = Inr arr'"
    and s: "self' = self\<lparr>pathlosses := arr'\<rparr>"
    using assms(1) by (auto simp: set_pathlosses_def split: sum.splits)
  show "length (pathlosses self') = length (pathlosses self)"
    using np_setitem_frame(1)[OF assms(2) a] s by simp
  show "distances self' = distances self" "nlos self' = nlos self" "points self' = points self"
    "graphs self' = graphs self" "idxs self' = idxs self" "count self' = count self"
    "coordinates self' = coordinates self" using s by simp_all
  fix i assume "i \<notin> set ps"
  then show "pathlosses self' ! i = pathlosses self ! i"
    using np_setitem_frame(2)[OF assms(2) a] s by simp
qed

theorem set_pathlosses_frame_witness:
  "idxs example_vehicles ''nlos'' = Some (Indices [0, - 1])
   \<and> positions (length (pathlosses example_vehicles)) (Indices [0, - 1]) = Inr [0, 2]
   \<and> (\<exists>self'. set_pathlosses example_vehicles ''nlos'' [7, 9] = Inr self'
        \<and> pathlosses self' = [7, 0, 9]
        \<and> pathlosses self' ! 1 = pathlosses example_vehicles ! 1
        \<and> distances self' = distances example_vehicles)"
proof -
  have a: "idxs example_vehicles ''nlos'' = Some (Indices [0, - 1])"
    by (simp add: example_vehicles_def add_key_def)
  have b: "positions (length (pathlosses example_vehicles)) (Indices [0, - 1]) = Inr [0, 2]"
    by (simp add: example_vehicles_def add_key_def positions_def)
  have c: "set_pathlosses example_vehicles ''nlos'' [7, 9]
      = Inr (example_vehicles\<lparr>pathlosses := [7, 0, 9]\<rparr>)"
    by (simp add: set_pathlosses_def np_setitem_def shape_mismatch_def a b)
      (simp add: example_vehicles_def add_key_def)
  have d: "pathlosses example_vehicles = [0, 0, 0]"
    by (simp add: example_vehicles_def add_key_def)
  from set_pathlosses_frame[OF a b, of "[7, 9]"] c show ?thesis using a b by (simp add: d)
qed

subsection \<open>Visibility classifier: the vehicle-body obstruction test\<close>

lemma line_intersects_points_iff:
  "line_intersects_points line pts margin \<longleftrightarrow>
     (\<exists>p \<in> set pts. 0 < line_project line p \<and> line_project line p < line_length line
        \<and> line_distance line p < margin)"
  by (induction pts) (auto simp: Let_def)

lemma set_without_index:
  assumes "i < length xs"
  shows "set (take i xs @ drop (Suc i) xs) = {xs ! j | j. j < length xs \<and> j \<noteq> i}"
proof (intro set_eqI iffI)
  fix x assume "x \<in> set (take i xs @ drop (Suc i) xs)"
  then consider "x \<in> set (take i xs)" | "x \<in> set (drop (Suc i) xs)" by auto
  then show "x \<in> {xs ! j | j. j < length xs \<and> j \<noteq> i}"
  proof cases
    case 1
    then obtain k where "k < length (take i xs)" "take i xs ! k = x"
      by (auto simp: in_set_conv_nth)
    then have "k < length xs" "k \<noteq> i" "xs ! k = x" using assms by auto
    then show ?thesis by blast
  next
    case 2
    then obtain k where "k < length (drop (Suc i) xs)" "drop (Suc i) xs ! k = x"
      by (auto simp: in_set_conv_nth)
    then have "Suc i + k < length xs" "Suc i + k \<noteq> i" "xs ! (Suc i + k) = x" by auto
    then show ?thesis by blast
  qed
next
  fix x assume "x \<in> {xs ! j | j. j < length xs \<and> j \<noteq> i}"
  then obtain j where j: "j < length xs" "j \<noteq> i" "x = xs ! j" by blast
  show "x \<in> set (take i xs @ drop (Suc i) xs)"
  proof (cases rule: linorder_cases[of j i])
    case less
    then have "take i xs ! j = x" "j < length (take i xs)" using j assms by auto
    then have "x \<in> set (take i xs)" by (metis nth_mem)
    then show ?thesis by simp
  next
    case equal
    with j show ?thesis by simp
  next
    case greater
    then have "drop (Suc i) xs ! (j - Suc i) = x" "j - Suc i < length (drop (Suc i) xs)"
      using j by auto
    then have "x \<in> set (drop (Suc i) xs)" by (metis nth_mem)
    then show ?thesis by simp
  qed
qed

lemma euclid_example: "euclid (0, 0) (10, 0) = 10"
  by (simp add: euclid_def)

lemma sqrt_nine_quarters: "sqrt (9 / 4) = 3 / 2"
  by (rule real_sqrt_unique) (simp_all add: power2_eq_square)

lemma line_project_example: "line_project [(0, 0), (10, 0)] (5, y) = 5"
  by (simp add: line_project_def seg_project_def seg_param_def euclid_def)

lemma seg_distance_example: "seg_distance (0, 0) (10, 0) (5, 3 / 2) = 3 / 2"
  by (simp add: seg_distance_def seg_point_def seg_project_def seg_param_def euclid_def
      sqrt_nine_quarters power2_eq_square)

lemma seg_distance_example_half: "seg_distance (0, 0) (10, 0) (5, 1 / 2) = 1 / 2"
  by (simp add: seg_distance_def seg_point_def seg_project_def seg_param_def euclid_def
      power2_eq_square real_sqrt_divide)

text \<open>
  C3, as the code has it: the entry of \<open>veh_cons_are_olos\<close> at an index is True if and only
  if a vehicle at another index has a projection onto the segment from the own point to
  the indexed vehicle that lies strictly between 0 and the length of the segment, and a
  distance to the segment below the margin; and the margin of a call that gives none is 1.
\<close>

theorem veh_cons_are_olos_iff:
  assumes "index < length point_vehs"
  shows "(veh_cons_are_olos point_own point_vehs margin ! index \<longleftrightarrow>
           (\<exists>j < length point_vehs. j \<noteq> index
              \<and> 0 < line_project [point_own, point_vehs ! index] (point_vehs ! j)
              \<and> line_project [point_own, point_vehs ! index] (point_vehs ! j)
                  < line_length [point_own, point_vehs ! index]
              \<and> line_distance [point_own, point_vehs ! index] (point_vehs ! j) < margin))
       \<and> veh_cons_are_olos_default point_own point_vehs = veh_cons_are_olos point_own point_vehs 1"
proof -
  have "veh_cons_are_olos point_own point_vehs margin ! index
      = line_intersects_points [point_own, point_vehs ! index]
          (take index point_vehs @ drop (Suc index) point_vehs) margin"
    using assms by (simp add: veh_cons_are_olos_def)
  then show ?thesis
    unfolding line_intersects_points_iff set_without_index[OF assms] veh_cons_are_olos_default_def
    by blast
qed

text \<open>
  A vehicle half a unit beside the middle of the segment from \<open>(0, 0)\<close> to \<open>(10, 0)\<close>
  obstructs it under the margin 1.
\<close>

theorem veh_cons_are_olos_iff_witness:
  "(0::nat) < length [(10, 0), (5, 1 / 2) :: coord]
   \<and> veh_cons_are_olos (0, 0) [(10, 0), (5, 1 / 2)] 1 ! 0"
proof -
  have l: "(0::nat) < length [(10, 0), (5, 1 / 2) :: coord]" by simp
  have "\<exists>j < length [(10, 0), (5, 1 / 2) :: coord]. j \<noteq> 0
      \<and> 0 < line_project [(0, 0), [(10, 0), (5, 1 / 2)] ! 0] ([(10, 0), (5, 1 / 2)] ! j)
      \<and> line_project [(0, 0), [(10, 0), (5, 1 / 2)] ! 0] ([(10, 0), (5, 1 / 2)] ! j)
          < line_length [(0, 0), [(10, 0), (5, 1 / 2)] ! 0]
      \<and> line_distance [(0, 0), [(10, 0), (5, 1 / 2)] ! 0] ([(10, 0), (5, 1 / 2)] ! j) < 1"
    by (rule exI[of _ 1])
      (simp add: euclid_example line_project_example seg_distance_example_half)
  with veh_cons_are_olos_iff[OF l, of "(0, 0)" 1] show ?thesis by simp
qed

text \<open>
  C3 as stated, with the default margin 2, fails: for the own vehicle at \<open>(0, 0)\<close> and the
  vehicles at \<open>(10, 0)\<close> and \<open>(5, 3/2)\<close>, the second one projects to the middle of the
  segment to the first and is 3/2 away from it, below 2; the call without a margin does
  not report the first vehicle as OLOS.
\<close>

theorem veh_cons_are_olos_default_margin:
  "\<not> (veh_cons_are_olos_default (0, 0) [(10, 0), (5, 3 / 2)] ! 0 \<longleftrightarrow>
       (\<exists>j < length [(10, 0), (5, 3 / 2) :: coord]. j \<noteq> 0
          \<and> 0 < line_project [(0, 0), [(10, 0), (5, 3 / 2)] ! 0] ([(10, 0), (5, 3 / 2)] ! j)
          \<and> line_project [(0, 0), [(10, 0), (5, 3 / 2)] ! 0] ([(10, 0), (5, 3 / 2)] ! j)
              < line_length [(0, 0), [(10, 0), (5, 3 / 2)] ! 0]
          \<and> line_distance [(0, 0), [(10, 0), (5, 3 / 2)] ! 0] ([(10, 0), (5, 3 / 2)] ! j) < 2))"
proof -
  have "veh_cons_are_olos_default (0, 0) [(10, 0), (5, 3 / 2)] ! 0 = False"
    by (simp add: veh_cons_are_olos_default_def veh_cons_are_olos_def euclid_example
        line_project_example seg_distance_example Let_def)
  moreover have "\<exists>j < length [(10, 0), (5, 3 / 2) :: coord]. j \<noteq> 0
      \<and> 0 < line_project [(0, 0), [(10, 0), (5, 3 / 2)] ! 0] ([(10, 0), (5, 3 / 2)] ! j)
      \<and> line_project [(0, 0), [(10, 0), (5, 3 / 2)] ! 0] ([(10, 0), (5, 3 / 2)] ! j)
          < line_length [(0, 0), [(10, 0), (5, 3 / 2)] ! 0]
      \<and> line_distance [(0, 0), [(10, 0), (5, 3 / 2)] ! 0] ([(10, 0), (5, 3 / 2)] ! j) < 2"
    by (rule exI[of _ 1]) (simp add: euclid_example line_project_example seg_distance_example)
  ultimately show ?thesis by simp
qed

subsection \<open>Orthogonality analyzer\<close>

lemma foldl_plus: "foldl (+) a xs = a + sum_list (xs :: real list)"
  by (induction xs arbitrary: a) simp_all

lemma py_sum_eq: "py_sum xs = sum_list xs"
  by (simp add: py_sum_def foldl_plus)

lemma angles_loop_length: "length (angles_loop p a i cs angles) = length angles"
  by (induction p a i cs angles rule: angles_loop.induct) (simp_all add: Let_def)

lemma argmax_loop_bound: "best < i \<Longrightarrow> argmax_loop best v i xs < i + length xs"
  by (induction best v i xs rule: argmax_loop.induct) auto

lemma np_argmax_Cons: "\<exists>i. np_argmax (x # xs) = Inr i \<and> i < length (x # xs)"
  using argmax_loop_bound[of 0 1 x xs] by (simp add: np_argmax_def)

lemma angles_along_line_length:
  "angles_along_line route = Inr angles \<Longrightarrow>
     \<exists>cs. route = LineString cs \<and> 2 \<le> length cs \<and> length angles = length cs - 2"
  by (auto simp: angles_along_line_def coords_of_def angles_loop_length Suc_le_eq
      split: geometry.splits list.splits if_splits)

lemma angles_along_line_total:
  "2 \<le> length cs \<Longrightarrow> \<exists>angles. angles_along_line (LineString cs) = Inr angles"
  by (auto simp: angles_along_line_def coords_of_def split: list.splits)

lemma orthogonal_of_route_flag:
  assumes "orthogonal_of_route max_angle route = Inr (flag, c)"
  shows "\<exists>angles. angles_along_line route = Inr angles
           \<and> (flag \<longleftrightarrow> sum_list (contributions_of angles) < max_angle)"
  using assms
  by (auto simp: orthogonal_of_route_def contributions_of_def py_sum_eq Let_def
      split: sum.splits if_splits)

lemma orthogonal_of_route_total:
  assumes "3 \<le> length cs"
  shows "\<exists>r. orthogonal_of_route max_angle (LineString cs) = Inr r"
proof -
  from assms obtain angles where a: "angles_along_line (LineString cs) = Inr angles"
    using angles_along_line_total[of cs] by auto
  from angles_along_line_length[OF a] have len: "length angles = length cs - 2" by simp
  with assms obtain x xs where ax: "angles = x # xs" by (cases angles) auto
  let ?w = "map (\<lambda>a. pi - \<bar>wrap_to_pi a\<bar>) angles"
  from ax obtain i where i: "np_argmax ?w = Inr i" "i < length ?w"
    using np_argmax_Cons[of "pi - \<bar>wrap_to_pi x\<bar>" "map (\<lambda>a. pi - \<bar>wrap_to_pi a\<bar>) xs"] by auto
  then have "i + 1 < length cs" using len assms by simp
  with a i show ?thesis
    by (simp add: orthogonal_of_route_def coords_of_def Let_def)
qed

lemma orthogonal_of_route_short:
  assumes "length cs < 3"
  shows "orthogonal_of_route max_angle (LineString cs) = Inl ValueError"
proof (cases "2 \<le> length cs")
  case True
  then obtain angles where a: "angles_along_line (LineString cs) = Inr angles"
    using angles_along_line_total[of cs] by auto
  from angles_along_line_length[OF a] assms True have "angles = []" by simp
  with a show ?thesis by (simp add: orthogonal_of_route_def np_argmax_def Let_def)
next
  case False
  then have "angles_along_line (LineString cs) = Inl ValueError"
    by (auto simp: angles_along_line_def coords_of_def Suc_le_eq split: list.splits)
  then show ?thesis by (simp add: orthogonal_of_route_def)
qed


lemma nx_compose_props:
  assumes "nx_compose lib G H h = (r, h1)"
  shows "r = next_ref h" and "next_ref h1 = Suc (next_ref h)"
    and "a < next_ref h \<Longrightarrow> objs h1 a = objs h a"
    and "objs h1 r = compose lib (objs h G) (objs h H)"
  using assms by (auto simp: nx_compose_def)

lemma check_loop_frame:
  "check_loop lib m node_own l gs h = (res, h') \<Longrightarrow>
     next_ref h \<le> next_ref h' \<and> (\<forall>a < next_ref h. objs h' a = objs h a)"
proof (induction gs arbitrary: h res h')
  case Nil
  then show ?case by simp
next
  case (Cons g gs)
  show ?case
  proof (cases rule: option.exhaust[of "node_veh (objs h g)"])
    case None
    with Cons.prems show ?thesis by simp
  next
    case (Some node_v)
    obtain r h1 where c: "nx_compose lib g l h = (r, h1)" by (cases rule: prod.exhaust)
    note p = nx_compose_props[OF c]
    have h1: "next_ref h \<le> next_ref h1 \<and> (\<forall>a < next_ref h. objs h1 a = objs h a)"
      using p by simp
    obtain res2 h2 where rec: "check_loop lib m node_own l gs h1 = (res2, h2)"
      by (cases rule: prod.exhaust)
    from Cons.IH[OF rec] h1
    have h2: "next_ref h \<le> next_ref h2 \<and> (\<forall>a < next_ref h. objs h2 a = objs h a)"
      by auto
    from Cons.prems Some c rec have "h' = h1 \<or> h' = h2"
      by (auto split: sum.splits)
    with h1 h2 show ?thesis by auto
  qed
qed

lemma check_loop_result:
  assumes "l < next_ref h" and "\<forall>g \<in> set gs. g < next_ref h"
    and "check_loop lib m node_own l gs h = (Inr rs, h')"
  shows "length rs = length gs \<and>
     (\<forall>i < length gs. \<exists>node_v route angles.
        node_veh (objs h (gs ! i)) = Some node_v
      \<and> line_route_between_nodes lib node_own node_v (compose lib (objs h (gs ! i)) (objs h l))
          = Inr route
      \<and> orthogonal_of_route m route = Inr (rs ! i)
      \<and> angles_along_line route = Inr angles
      \<and> (fst (rs ! i) \<longleftrightarrow> sum_list (contributions_of angles) < m))"
  using assms
proof (induction gs arbitrary: h rs h')
  case Nil
  then show ?case by simp
next
  case (Cons g gs)
  from Cons.prems(3) obtain node_v where nv: "node_veh (objs h g) = Some node_v"
    by (cases rule: option.exhaust[of "node_veh (objs h g)"]) auto
  obtain r h1 where c: "nx_compose lib g l h = (r, h1)" by (cases rule: prod.exhaust)
  note p = nx_compose_props[OF c]
  from Cons.prems(3) nv c obtain route where
    route: "line_route_between_nodes lib node_own node_v (objs h1 r) = Inr route"
    by (auto split: sum.splits)
  from Cons.prems(3) nv c route obtain x where x: "orthogonal_of_route m route = Inr x"
    by (auto split: sum.splits)
  from Cons.prems(3) nv c route x obtain rs' where
    rec: "check_loop lib m node_own l gs h1 = (Inr rs', h')" and rs: "rs = x # rs'"
    by (auto split: sum.splits prod.splits)
  have valid: "l < next_ref h1" "\<forall>g \<in> set gs. g < next_ref h1"
    using Cons.prems(1,2) p(2) by auto
  have same: "objs h1 l = objs h l" "\<forall>g \<in> set gs. objs h1 g = objs h g"
    using Cons.prems(1,2) p(3) by auto
  from Cons.IH[OF valid rec] have IH: "length rs' = length gs"
    "\<forall>i < length gs. \<exists>node_v route angles.
        node_veh (objs h (gs ! i)) = Some node_v
      \<and> line_route_between_nodes lib node_own node_v (compose lib (objs h (gs ! i)) (objs h l))
          = Inr route
      \<and> orthogonal_of_route m route = Inr (rs' ! i)
      \<and> angles_along_line route = Inr angles
      \<and> (fst (rs' ! i) \<longleftrightarrow> sum_list (contributions_of angles) < m)"
    using same by auto
  obtain flag c' where xf: "x = (flag, c')" by (cases rule: prod.exhaust)
  from orthogonal_of_route_flag[OF x[unfolded xf]] obtain angles where
    an: "angles_along_line route = Inr angles"
      "flag \<longleftrightarrow> sum_list (contributions_of angles) < m" by auto
  have first: "\<exists>node_v route angles.
        node_veh (objs h g) = Some node_v
      \<and> line_route_between_nodes lib node_own node_v (compose lib (objs h g) (objs h l))
          = Inr route
      \<and> orthogonal_of_route m route = Inr x
      \<and> angles_along_line route = Inr angles
      \<and> (fst x \<longleftrightarrow> sum_list (contributions_of angles) < m)"
    using nv route p(4) an xf x by auto
  show ?case
  proof (intro conjI allI impI)
    show "length rs = length (g # gs)" using IH(1) rs by simp
    fix i assume "i < length (g # gs)"
    then show "\<exists>node_v route angles.
        node_veh (objs h ((g # gs) ! i)) = Some node_v
      \<and> line_route_between_nodes lib node_own node_v
            (compose lib (objs h ((g # gs) ! i)) (objs h l)) = Inr route
      \<and> orthogonal_of_route m route = Inr (rs ! i)
      \<and> angles_along_line route = Inr angles
      \<and> (fst (rs ! i) \<longleftrightarrow> sum_list (contributions_of angles) < m)"
      using first IH(2) rs by (cases i) auto
  qed
qed

lemma check_loop_total:
  assumes "l < next_ref h" and "\<forall>g \<in> set gs. g < next_ref h"
    and "\<forall>g \<in> set gs. \<exists>node_v cs. node_veh (objs h g) = Some node_v
           \<and> line_route_between_nodes lib node_own node_v (compose lib (objs h g) (objs h l))
               = Inr (LineString cs) \<and> 3 \<le> length cs"
  shows "\<exists>rs h'. check_loop lib m node_own l gs h = (Inr rs, h')"
  using assms
proof (induction gs arbitrary: h)
  case Nil
  then show ?case by simp
next
  case (Cons g gs)
  from Cons.prems(3) obtain node_v cs where nv: "node_veh (objs h g) = Some node_v"
    and route: "line_route_between_nodes lib node_own node_v (compose lib (objs h g) (objs h l))
               = Inr (LineString cs)" and len: "3 \<le> length cs" by auto
  obtain r h1 where c: "nx_compose lib g l h = (r, h1)" by (cases rule: prod.exhaust)
  note p = nx_compose_props[OF c]
  from orthogonal_of_route_total[OF len, of m] obtain x where
    x: "orthogonal_of_route m (LineString cs) = Inr x" by auto
  have valid: "l < next_ref h1" "\<forall>g \<in> set gs. g < next_ref h1"
    using Cons.prems(1,2) p(2) by auto
  have same: "objs h1 l = objs h l" "\<forall>g \<in> set gs. objs h1 g = objs h g"
    using Cons.prems(1,2) p(3) by auto
  have "\<forall>g \<in> set gs. \<exists>node_v cs. node_veh (objs h1 g) = Some node_v
           \<and> line_route_between_nodes lib node_own node_v (compose lib (objs h1 g) (objs h1 l))
               = Inr (LineString cs) \<and> 3 \<le> length cs"
    using Cons.prems(3) same by auto
  from Cons.IH[OF valid this] obtain rs h' where
    "check_loop lib m node_own l gs h1 = (Inr rs, h')" by auto
  with nv c route x p(4) show ?case by simp
qed


lemma check_if_cons_orthogonal_result:
  assumes "streets_wave < next_ref h" and "graph_veh_own < next_ref h"
    and "\<forall>g \<in> set graphs_veh_other. g < next_ref h"
    and "check_if_cons_orthogonal lib streets_wave graph_veh_own graphs_veh_other max_angle h
           = (Inr (flags, cs), h')"
  shows "length flags = length graphs_veh_other \<and>
     (\<forall>i < length graphs_veh_other. \<exists>route angles r.
        pair_route lib (objs h streets_wave) (objs h graph_veh_own)
          (objs h (graphs_veh_other ! i)) = Inr route
      \<and> orthogonal_of_route max_angle route = Inr r
      \<and> angles_along_line route = Inr angles
      \<and> (flags ! i \<longleftrightarrow> sum_list (contributions_of angles) < max_angle))"
proof -
  from assms(4) obtain node_own where own: "node_veh (objs h graph_veh_own) = Some node_own"
    by (cases rule: option.exhaust[of "node_veh (objs h graph_veh_own)"])
      (auto simp: check_if_cons_orthogonal_def)
  obtain l h1 where c: "nx_compose lib graph_veh_own streets_wave h = (l, h1)"
    by (cases rule: prod.exhaust)
  note p = nx_compose_props[OF c]
  from assms(4) own c obtain rs where
    loop: "check_loop lib max_angle node_own l graphs_veh_other h1 = (Inr rs, h')"
    and flags: "flags = map fst rs"
    by (auto simp: check_if_cons_orthogonal_def split: sum.splits prod.splits)
  have valid: "l < next_ref h1" "\<forall>g \<in> set graphs_veh_other. g < next_ref h1"
    using assms(3) p(1,2) by auto
  have same: "\<forall>g \<in> set graphs_veh_other. objs h1 g = objs h g"
    using assms(3) p(3) by auto
  have local: "objs h1 l = compose lib (objs h graph_veh_own) (objs h streets_wave)"
    using p(4) by simp
  note res = check_loop_result[OF valid loop]
  show ?thesis
  proof (intro conjI allI impI)
    show "length flags = length graphs_veh_other" using res flags by simp
    fix i assume i: "i < length graphs_veh_other"
    with res obtain node_v route angles where
      r: "node_veh (objs h1 (graphs_veh_other ! i)) = Some node_v"
        "line_route_between_nodes lib node_own node_v
           (compose lib (objs h1 (graphs_veh_other ! i)) (objs h1 l)) = Inr route"
        "orthogonal_of_route max_angle route = Inr (rs ! i)"
        "angles_along_line route = Inr angles"
        "fst (rs ! i) \<longleftrightarrow> sum_list (contributions_of angles) < max_angle"
      by blast
    have "objs h1 (graphs_veh_other ! i) = objs h (graphs_veh_other ! i)"
      using same i by simp
    with r own local have "pair_route lib (objs h streets_wave) (objs h graph_veh_own)
          (objs h (graphs_veh_other ! i)) = Inr route"
      by (simp add: pair_route_def)
    moreover have "flags ! i = fst (rs ! i)" using flags i res by simp
    ultimately show "\<exists>route angles r.
        pair_route lib (objs h streets_wave) (objs h graph_veh_own)
          (objs h (graphs_veh_other ! i)) = Inr route
      \<and> orthogonal_of_route max_angle route = Inr r
      \<and> angles_along_line route = Inr angles
      \<and> (flags ! i \<longleftrightarrow> sum_list (contributions_of angles) < max_angle)"
      using r(3,4,5) by blast
  qed
qed

lemma check_if_cons_orthogonal_total:
  assumes "streets_wave < next_ref h" and "graph_veh_own < next_ref h"
    and "\<forall>g \<in> set graphs_veh_other. g < next_ref h"
    and "node_veh (objs h graph_veh_own) = Some node_own"
    and "\<forall>g \<in> set graphs_veh_other. \<exists>cs.
           pair_route lib (objs h streets_wave) (objs h graph_veh_own) (objs h g)
             = Inr (LineString cs) \<and> 3 \<le> length cs"
  shows "\<exists>flags cs h'.
     check_if_cons_orthogonal lib streets_wave graph_veh_own graphs_veh_other max_angle h
       = (Inr (flags, cs), h')"
proof -
  obtain l h1 where c: "nx_compose lib graph_veh_own streets_wave h = (l, h1)"
    by (cases rule: prod.exhaust)
  note p = nx_compose_props[OF c]
  have valid: "l < next_ref h1" "\<forall>g \<in> set graphs_veh_other. g < next_ref h1"
    using assms(3) p(1,2) by auto
  have same: "\<forall>g \<in> set graphs_veh_other. objs h1 g = objs h g"
    using assms(3) p(3) by auto
  have local: "objs h1 l = compose lib (objs h graph_veh_own) (objs h streets_wave)"
    using p(4) by simp
  have "\<forall>g \<in> set graphs_veh_other. \<exists>node_v cs. node_veh (objs h1 g) = Some node_v
           \<and> line_route_between_nodes lib node_own node_v (compose lib (objs h1 g) (objs h1 l))
               = Inr (LineString cs) \<and> 3 \<le> length cs"
  proof
    fix g assume g: "g \<in> set graphs_veh_other"
    with assms(5) obtain cs where
      pr: "pair_route lib (objs h streets_wave) (objs h graph_veh_own) (objs h g)
             = Inr (LineString cs)" and len: "3 \<le> length cs" by blast
    from pr assms(4) obtain node_v where "node_veh (objs h g) = Some node_v"
      "line_route_between_nodes lib node_own node_v
         (compose lib (objs h g) (compose lib (objs h graph_veh_own) (objs h streets_wave)))
       = Inr (LineString cs)"
      by (auto simp: pair_route_def split: option.splits)
    with g same local len show "\<exists>node_v cs. node_veh (objs h1 g) = Some node_v
           \<and> line_route_between_nodes lib node_own node_v (compose lib (objs h1 g) (objs h1 l))
               = Inr (LineString cs) \<and> 3 \<le> length cs"
      by auto
  qed
  from check_loop_total[OF valid this, of max_angle] obtain rs h' where
    "check_loop lib max_angle node_own l graphs_veh_other h1 = (Inr rs, h')" by auto
  with assms(4) c show ?thesis by (simp add: check_if_cons_orthogonal_def)
qed

lemma check_if_cons_orthogonal_heap:
  assumes "r < next_ref h"
  shows "objs (snd (check_if_cons_orthogonal lib streets_wave graph_veh_own graphs_veh_other
                      max_angle h)) r = objs h r"
proof (cases rule: option.exhaust[of "node_veh (objs h graph_veh_own)"])
  case None
  then show ?thesis by (simp add: check_if_cons_orthogonal_def)
next
  case (Some node_own)
  obtain l h1 where c: "nx_compose lib graph_veh_own streets_wave h = (l, h1)"
    by (cases rule: prod.exhaust)
  note p = nx_compose_props[OF c]
  obtain res h2 where loop: "check_loop lib max_angle node_own l graphs_veh_other h1 = (res, h2)"
    by (cases rule: prod.exhaust)
  from check_loop_frame[OF loop] p(2,3) assms have "objs h2 r = objs h r" by auto
  moreover have "snd (check_if_cons_orthogonal lib streets_wave graph_veh_own graphs_veh_other
                      max_angle h) = h2"
    using Some c loop by (auto simp: check_if_cons_orthogonal_def split: sum.splits)
  ultimately show ?thesis by simp
qed




lemma floor_three_quarters: "\<lfloor>(pi / 2 + pi) / (2 * pi)\<rfloor> = 0"
proof -
  have "(pi / 2 + pi) / (2 * pi) = 3 / 4" by (simp add: field_simps)
  then show ?thesis by simp
qed


text \<open>
  \<open>np_arctan2 x1 x2\<close> is the angle of the point \<open>(x2, x1)\<close>, in \<open>(-\<pi>, \<pi>]\<close>.
\<close>

lemma sqrt_one_plus_ratio:
  assumes "x2 \<noteq> 0"
  shows "sqrt (1 + (x1 / x2)\<^sup>2) = sqrt (x1\<^sup>2 + x2\<^sup>2) / \<bar>x2\<bar>"
proof -
  have "1 + (x1 / x2)\<^sup>2 = (x1\<^sup>2 + x2\<^sup>2) / x2\<^sup>2"
    using assms by (simp add: power_divide field_simps)
  then show ?thesis by (simp add: real_sqrt_divide)
qed

lemma arctan_polar:
  assumes "x2 \<noteq> 0"
  shows "sqrt (x1\<^sup>2 + x2\<^sup>2) * cos (arctan (x1 / x2)) = \<bar>x2\<bar>"
    and "sqrt (x1\<^sup>2 + x2\<^sup>2) * sin (arctan (x1 / x2)) = x1 * \<bar>x2\<bar> / x2"
proof -
  have r: "sqrt (x1\<^sup>2 + x2\<^sup>2) \<noteq> 0"
    using assms by (simp add: sum_power2_eq_zero_iff)
  show "sqrt (x1\<^sup>2 + x2\<^sup>2) * cos (arctan (x1 / x2)) = \<bar>x2\<bar>"
    using assms r by (simp add: cos_arctan sqrt_one_plus_ratio)
  show "sqrt (x1\<^sup>2 + x2\<^sup>2) * sin (arctan (x1 / x2)) = x1 * \<bar>x2\<bar> / x2"
    using assms r by (simp add: sin_arctan sqrt_one_plus_ratio)
qed

lemma np_arctan2_polar:
  assumes "x1 \<noteq> 0 \<or> x2 \<noteq> 0"
  shows "sqrt (x1\<^sup>2 + x2\<^sup>2) * cos (np_arctan2 x1 x2) = x2"
    and "sqrt (x1\<^sup>2 + x2\<^sup>2) * sin (np_arctan2 x1 x2) = x1"
    and "- pi < np_arctan2 x1 x2" and "np_arctan2 x1 x2 \<le> pi"
proof -
  consider "0 < x2" | "x2 < 0" "0 \<le> x1" | "x2 < 0" "x1 < 0" | "x2 = 0" "0 < x1" | "x2 = 0" "x1 < 0"
    using assms by linarith
  then have "sqrt (x1\<^sup>2 + x2\<^sup>2) * cos (np_arctan2 x1 x2) = x2
      \<and> sqrt (x1\<^sup>2 + x2\<^sup>2) * sin (np_arctan2 x1 x2) = x1
      \<and> - pi < np_arctan2 x1 x2 \<and> np_arctan2 x1 x2 \<le> pi"
  proof cases
    case 1
    then have "x2 \<noteq> 0" by simp
    from arctan_polar[OF this, of x1] 1 arctan_bounded[of "x1 / x2"]
    show ?thesis by (simp add: np_arctan2_def)
  next
    case 2
    then have "x2 \<noteq> 0" by simp
    have "x1 / x2 \<le> 0" using 2 by (simp add: divide_nonneg_neg)
    then have "arctan (x1 / x2) \<le> 0" by (simp add: arctan_le_zero_iff)
    with arctan_polar[OF \<open>x2 \<noteq> 0\<close>, of x1] 2 arctan_bounded[of "x1 / x2"]
    show ?thesis by (simp add: np_arctan2_def)
  next
    case 3
    then have "x2 \<noteq> 0" by simp
    have "0 < x1 / x2" using 3 by (simp add: divide_neg_neg)
    then have "0 < arctan (x1 / x2)" by (simp add: zero_less_arctan_iff)
    with arctan_polar[OF \<open>x2 \<noteq> 0\<close>, of x1] 3 arctan_bounded[of "x1 / x2"]
    show ?thesis by (simp add: np_arctan2_def)
  next
    case 4
    then show ?thesis using pi_gt_zero by (simp add: np_arctan2_def)
  next
    case 5
    then show ?thesis by (simp add: np_arctan2_def) (use pi_gt_zero in linarith)
  qed
  then show "sqrt (x1\<^sup>2 + x2\<^sup>2) * cos (np_arctan2 x1 x2) = x2"
    and "sqrt (x1\<^sup>2 + x2\<^sup>2) * sin (np_arctan2 x1 x2) = x1"
    and "- pi < np_arctan2 x1 x2" and "np_arctan2 x1 x2 \<le> pi" by simp_all
qed

lemma np_mod_add_period: "y \<noteq> 0 \<Longrightarrow> np_mod (x + y) y = np_mod x y"
  by (simp add: np_mod_def add_divide_distrib algebra_simps)

lemma np_mod_shifted:
  "np_mod (d + pi) (2 * pi) =
     (if np_mod d (2 * pi) < pi then np_mod d (2 * pi) + pi else np_mod d (2 * pi) - pi)"
proof -
  define q where "q = \<lfloor>d / (2 * pi)\<rfloor>"
  define m where "m = np_mod d (2 * pi)"
  have m: "m = d - 2 * pi * of_int q" by (simp add: m_def q_def np_mod_def)
  have range: "0 \<le> m" "m < 2 * pi"
    using np_mod_range[of "2 * pi" d] by (simp_all add: m_def)
  have d: "(d + pi) / (2 * pi) = of_int q + (m + pi) / (2 * pi)"
    using m by (simp add: field_simps)
  show ?thesis
  proof (cases rule: case_split[of "m < pi"])
    case True
    have "\<lfloor>(d + pi) / (2 * pi)\<rfloor> = q"
    proof (rule floor_unique)
      show "of_int q \<le> (d + pi) / (2 * pi)" using range unfolding d by simp
      have "(m + pi) / (2 * pi) < 1" using True by simp
      then show "(d + pi) / (2 * pi) < of_int q + 1" unfolding d by simp
    qed
    then have "np_mod (d + pi) (2 * pi) = m + pi" using m by (simp add: np_mod_def)
    with True show ?thesis by (simp add: m_def)
  next
    case False
    have "\<lfloor>(d + pi) / (2 * pi)\<rfloor> = q + 1"
    proof (rule floor_unique)
      have "1 \<le> (m + pi) / (2 * pi)" using False by simp
      then show "of_int (q + 1) \<le> (d + pi) / (2 * pi)" unfolding d by simp
      have "(m + pi) / (2 * pi) < 2" using range pi_gt_zero by (simp add: pos_divide_less_eq)
      then show "(d + pi) / (2 * pi) < of_int (q + 1) + 1" unfolding d by simp
    qed
    then have "np_mod (d + pi) (2 * pi) = m - pi" using m by (simp add: np_mod_def algebra_simps)
    with False show ?thesis by (simp add: m_def)
  qed
qed

lemma contribution_magnitude:
  "pi - \<bar>np_mod d (2 * pi) - pi\<bar> = \<bar>wrap_to_pi d\<bar>"
proof -
  have range: "0 \<le> np_mod d (2 * pi)" "np_mod d (2 * pi) < 2 * pi"
    using np_mod_range[of "2 * pi" d] by simp_all
  then show ?thesis unfolding wrap_to_pi_def np_mod_shifted by (simp add: abs_if)
qed

lemma wrap_to_pi_plus: "wrap_to_pi (d + pi) = np_mod d (2 * pi) - pi"
  using np_mod_add_period[of "2 * pi" d] by (simp add: wrap_to_pi_def algebra_simps)

lemma wrap_to_pi_minus: "wrap_to_pi (d - pi) = np_mod d (2 * pi) - pi"
  by (simp add: wrap_to_pi_def)

lemma stored_angle_contribution:
  "pi - \<bar>wrap_to_pi (stored_angle cs k)\<bar> = turn_contribution cs k"
  by (simp add: stored_angle_def turn_contribution_def wrap_to_pi_plus wrap_to_pi_minus
      contribution_magnitude)

lemma angles_loop_nth:
  assumes "rest = drop (Suc i) cs" and "i < length cs" and "coord_prev = cs ! i"
    and "length angles = length cs - 2"
    and "0 < i \<Longrightarrow> angle_prev = bearing (cs ! (i - 1)) (cs ! i)"
    and "k < length cs - 2"
  shows "angles_loop coord_prev angle_prev i rest angles ! k =
           (if i \<le> Suc k then stored_angle cs k else angles ! k)"
  using assms
proof (induction rest arbitrary: i coord_prev angle_prev angles)
  case Nil
  then have "length cs \<le> Suc i" by simp
  with Nil.prems(6) have "\<not> i \<le> Suc k" by arith
  then show ?case by simp
next
  case (Cons coord rest)
  from Cons.prems(1) have si: "Suc i < length cs"
    by (metis drop_all leI list.distinct(1))
  have coord: "coord = cs ! Suc i" and rest: "rest = drop (Suc (Suc i)) cs"
    using Cons.prems(1) si by (metis Cons_nth_drop_Suc list.inject)+
  define angle_temp where "angle_temp = bearing (cs ! i) (cs ! Suc i)"
  define angles' where "angles' =
      (if i \<noteq> 0 then
         (if angle_temp - angle_prev < pi
          then angles[i - 1 := angle_temp - angle_prev + pi]
          else angles[i - 1 := angle_temp - angle_prev - pi])
       else angles)"
  have step: "angles_loop coord_prev angle_prev i (coord # rest) angles
      = angles_loop (cs ! Suc i) angle_temp (Suc i) rest angles'"
    using Cons.prems(3) coord
    by (simp add: Let_def angle_temp_def angles'_def bearing_def)
  have len: "length angles' = length cs - 2"
    using Cons.prems(4) by (simp add: angles'_def)
  have IH: "angles_loop (cs ! Suc i) angle_temp (Suc i) rest angles' ! k =
           (if Suc i \<le> Suc k then stored_angle cs k else angles' ! k)"
    using Cons.IH[OF rest si refl len _ Cons.prems(6), of angle_temp]
    by (simp add: angle_temp_def)
  have upd: "0 < i \<Longrightarrow> angles' = angles[i - 1 := stored_angle cs (i - 1)]"
    using Cons.prems(5)
    by (simp add: angles'_def stored_angle_def direction_change_def angle_temp_def)
  show ?case
  proof (cases rule: linorder_cases[of i "Suc k"])
    case less
    then show ?thesis using step IH by simp
  next
    case equal
    then have "angles' ! k = stored_angle cs k"
      using upd Cons.prems(4,6) by simp
    with equal step IH show ?thesis by simp
  next
    case greater
    then have "angles' ! k = angles ! k"
      using upd by (simp add: angles'_def)
    with greater step IH show ?thesis by simp
  qed
qed

lemma angles_along_line_stored:
  assumes "angles_along_line (LineString cs) = Inr angles"
  shows "2 \<le> length cs \<and> length angles = length cs - 2
       \<and> (\<forall>k < length cs - 2. angles ! k = stored_angle cs k)"
proof -
  from angles_along_line_length[OF assms] have len: "2 \<le> length cs" "length angles = length cs - 2"
    by auto
  then obtain c0 rest where cs: "cs = c0 # rest" "rest \<noteq> []"
    by (cases cs) (auto simp: Suc_le_eq)
  with assms have a: "angles = angles_loop c0 0 0 rest (replicate (length cs - 2) 0)"
    by (simp add: angles_along_line_def coords_of_def)
  have "\<forall>k < length cs - 2. angles ! k = stored_angle cs k"
  proof (intro allI impI)
    fix k assume k: "k < length cs - 2"
    have "angles_loop (cs ! 0) 0 0 (drop (Suc 0) cs) (replicate (length cs - 2) 0) ! k
        = (if 0 \<le> Suc k then stored_angle cs k else replicate (length cs - 2) 0 ! k)"
      by (rule angles_loop_nth[OF refl _ refl _ _ k]) (use len in auto)
    then show "angles ! k = stored_angle cs k" using a cs by simp
  qed
  with len show ?thesis by simp
qed

lemma min_by_length_least:
  "min_by_length best es \<in> set (best # es)
   \<and> list_all (\<lambda>e'. edge_length (min_by_length best es) \<le> edge_length e') (best # es)"
proof (induction es arbitrary: best)
  case Nil
  then show ?case by simp
next
  case (Cons e es)
  show ?case
  proof (cases rule: case_split[of "edge_length e < edge_length best"])
    case True
    have "edge_length (min_by_length e es) \<le> edge_length e"
      using Cons.IH[of e] by simp
    with True Cons.IH[of e] show ?thesis by auto
  next
    case False
    have "edge_length (min_by_length best es) \<le> edge_length best"
      using Cons.IH[of best] by simp
    with False Cons.IH[of best] show ?thesis by auto
  qed
qed

lemma route_lines_least:
  assumes "route_lines g pairs = Inr lines"
  shows "length lines = length pairs
       \<and> (\<forall>k < length pairs. \<exists>e. least_edge g (fst (pairs ! k)) (snd (pairs ! k)) e
                                  \<and> lines ! k = edge_geometry e)"
  using assms
proof (induction pairs arbitrary: lines)
  case Nil
  then show ?case by simp
next
  case (Cons pair pairs)
  obtain u v where pair: "pair = (u, v)" by (cases rule: prod.exhaust)
  from Cons.prems pair obtain e es rest where
    f: "filter (joins u v) (gedges g) = e # es"
    and r: "route_lines g pairs = Inr rest"
    and l: "lines = edge_geometry (min_by_length e es) # rest"
    by (auto split: list.splits sum.splits)
  let ?m = "min_by_length e es"
  have "?m \<in> set (filter (joins u v) (gedges g))"
    using min_by_length_least[of e es] f by simp
  then have m: "?m \<in> set (gedges g)" "joins u v ?m" by auto
  have "list_all (\<lambda>e'. edge_length ?m \<le> edge_length e') (filter (joins u v) (gedges g))"
    using min_by_length_least[of e es] f by simp
  with m have least: "least_edge g u v ?m" by (simp add: least_edge_def)
  note IH = Cons.IH[OF r]
  show ?case
  proof (intro conjI allI impI)
    show "length lines = length (pair # pairs)" using IH l by simp
    fix k assume k: "k < length (pair # pairs)"
    show "\<exists>e. least_edge g (fst ((pair # pairs) ! k)) (snd ((pair # pairs) ! k)) e
              \<and> lines ! k = edge_geometry e"
    proof (cases k)
      case 0
      with least pair l show ?thesis by auto
    next
      case (Suc k')
      with k IH l show ?thesis by auto
    qed
  qed
qed

lemma zip_butlast_tl:
  "length (zip (butlast xs) (tl xs)) = length xs - 1"
  "k < length xs - 1 \<Longrightarrow> zip (butlast xs) (tl xs) ! k = (xs ! k, xs ! Suc k)"
  by (simp_all add: nth_butlast nth_tl)

lemma line_route_between_nodes_least:
  assumes "line_route_between_nodes lib node_from node_to g = Inr route"
  shows "\<exists>path lines. shortest_path lib g node_from node_to = Inr path
           \<and> length lines = length path - 1
           \<and> (\<forall>k < length path - 1. \<exists>e. least_edge g (path ! k) (path ! Suc k) e
                                        \<and> lines ! k = edge_geometry e)
           \<and> route = linemerge lib lines"
proof -
  from assms obtain path lines where
    p: "shortest_path lib g node_from node_to = Inr path"
    and r: "route_lines g (zip (butlast path) (tl path)) = Inr lines"
    and m: "route = linemerge lib lines"
    by (auto simp: line_route_between_nodes_def split: sum.splits)
  from route_lines_least[OF r] have
    "length lines = length path - 1"
    "\<forall>k < length path - 1. \<exists>e. least_edge g (path ! k) (path ! Suc k) e
                                        \<and> lines ! k = edge_geometry e"
    by (auto simp: zip_butlast_tl nth_butlast nth_tl)
  with p m show ?thesis by blast
qed

lemma sum_contributions:
  assumes "length angles = n" and "\<forall>k < n. angles ! k = stored_angle cs k"
  shows "sum_list (contributions_of angles) = (\<Sum>k = 0..<n. turn_contribution cs k)"
proof -
  have "sum_list (contributions_of angles)
      = (\<Sum>k = 0..<n. pi - \<bar>wrap_to_pi (angles ! k)\<bar>)"
    using assms(1) by (simp add: contributions_of_def sum_list_sum_nth)
  also have "\<dots> = (\<Sum>k = 0..<n. turn_contribution cs k)"
    using assms(2) by (intro sum.cong) (simp_all add: stored_angle_contribution)
  finally show ?thesis .
qed

lemma pair_route_least:
  assumes "pair_route lib streets own other = Inr route"
  shows "\<exists>node_own node_v path lines.
           node_veh own = Some node_own \<and> node_veh other = Some node_v
         \<and> shortest_path lib (working_graph lib streets own other) node_own node_v = Inr path
         \<and> length lines = length path - 1
         \<and> (\<forall>k < length path - 1. \<exists>e.
               least_edge (working_graph lib streets own other) (path ! k) (path ! Suc k) e
             \<and> lines ! k = edge_geometry e)
         \<and> route = linemerge lib lines"
proof -
  from assms obtain node_own node_v where n: "node_veh own = Some node_own"
    "node_veh other = Some node_v"
    and r: "line_route_between_nodes lib node_own node_v (working_graph lib streets own other)
              = Inr route"
    by (auto simp: pair_route_def working_graph_def split: option.splits)
  from line_route_between_nodes_least[OF r] n show ?thesis by blast
qed

lemma classified_pair:
  assumes "pair_route lib streets own other = Inr route"
    and "orthogonal_of_route max_angle route = Inr r"
    and "angles_along_line route = Inr angles"
    and "flag \<longleftrightarrow> sum_list (contributions_of angles) < max_angle"
  shows "\<exists>node_own node_v path lines cs angles.
           node_veh own = Some node_own \<and> node_veh other = Some node_v
         \<and> shortest_path lib (working_graph lib streets own other) node_own node_v = Inr path
         \<and> length lines = length path - 1
         \<and> (\<forall>k < length path - 1. \<exists>e.
               least_edge (working_graph lib streets own other) (path ! k) (path ! Suc k) e
             \<and> lines ! k = edge_geometry e)
         \<and> linemerge lib lines = LineString cs \<and> 3 \<le> length cs
         \<and> angles_along_line (LineString cs) = Inr angles \<and> length angles = length cs - 2
         \<and> (\<forall>k < length cs - 2. pi - \<bar>wrap_to_pi (angles ! k)\<bar> = turn_contribution cs k)
         \<and> (flag \<longleftrightarrow> (\<Sum>k = 0..<length cs - 2. turn_contribution cs k) < max_angle)"
proof -
  from angles_along_line_length[OF assms(3)] obtain cs where cs: "route = LineString cs" by auto
  have len: "3 \<le> length cs"
  proof (rule ccontr)
    assume "\<not> 3 \<le> length cs"
    then have "length cs < 3" by simp
    from orthogonal_of_route_short[OF this, of max_angle] assms(2) cs show False by simp
  qed
  note st = angles_along_line_stored[OF assms(3)[unfolded cs]]
  have contrib: "\<forall>k < length cs - 2. pi - \<bar>wrap_to_pi (angles ! k)\<bar> = turn_contribution cs k"
    using st by (simp add: stored_angle_contribution)
  have sum: "sum_list (contributions_of angles) = (\<Sum>k = 0..<length cs - 2. turn_contribution cs k)"
    using st by (intro sum_contributions) simp_all
  from pair_route_least[OF assms(1)] obtain node_own node_v path lines where
    "node_veh own = Some node_own" "node_veh other = Some node_v"
    "shortest_path lib (working_graph lib streets own other) node_own node_v = Inr path"
    "length lines = length path - 1"
    "\<forall>k < length path - 1. \<exists>e.
               least_edge (working_graph lib streets own other) (path ! k) (path ! Suc k) e
             \<and> lines ! k = edge_geometry e"
    "route = linemerge lib lines" by blast
  with cs len st contrib sum assms(3,4) show ?thesis by (intro exI[of _ cs] exI[of _ angles] exI[of _ path] exI[of _ lines] exI[of _ node_own] exI[of _ node_v]) simp
qed

text \<open>
  The search of the second library instance gives a simple path of least length.
\<close>

lemma least_path_least:
  "least_path g best ps \<in> set (best # ps)
   \<and> list_all (\<lambda>q. path_length g (least_path g best ps) \<le> path_length g q) (best # ps)"
proof (induction ps arbitrary: best)
  case Nil
  then show ?case by simp
next
  case (Cons p ps)
  show ?case
  proof (cases rule: case_split[of "path_length g p < path_length g best"])
    case True
    have "path_length g (least_path g p ps) \<le> path_length g p"
      using Cons.IH[of p] by simp
    with True Cons.IH[of p] show ?thesis by auto
  next
    case False
    have "path_length g (least_path g best ps) \<le> path_length g best"
      using Cons.IH[of best] by simp
    with False Cons.IH[of best] show ?thesis by auto
  qed
qed

lemma search_shortest_path_least:
  assumes "search_shortest_path g a b = Inr p"
  shows "p \<in> set (simple_paths (length (gnodes g)) g b [] a)
       \<and> list_all (\<lambda>q. path_length g p \<le> path_length g q)
           (simple_paths (length (gnodes g)) g b [] a)"
proof -
  from assms obtain q qs where s: "simple_paths (length (gnodes g)) g b [] a = q # qs"
    and p: "p = least_path g q qs"
    by (auto simp: search_shortest_path_def split: list.splits)
  from least_path_least[of g q qs] show ?thesis unfolding s p by simp
qed

lemma route_graph:
  "working_graph route_library (objs route_heap 0) (objs route_heap 1) (objs route_heap 2) =
     \<lparr>gnodes = [(Intersection 0, Some (- 10, 0)), (Intersection 1, Some (10, 0)),
                (Intersection 2, Some (10, 10)), (Intersection 3, Some (10, 30)),
                (Vehicle 0, Some (0, 0)), (Vehicle 1, Some (10, 20))],
      gedges = [street_edge 0 1 0 20 [(- 10, 0), (10, 0)],
                street_edge 1 2 0 25 [(10, 0), (20, 5), (10, 10)],
                street_edge 1 2 1 10 [(10, 0), (10, 10)],
                street_edge 2 3 0 20 [(10, 10), (10, 30)],
                vehicle_edge 0 0 10 [(- 10, 0), (0, 0)],
                vehicle_edge 0 1 10 [(0, 0), (10, 0)],
                vehicle_edge 1 2 10 [(10, 10), (10, 20)],
                vehicle_edge 1 3 10 [(10, 20), (10, 30)]],
      node_veh = Some (Vehicle 0)\<rparr>"
  by (simp add: working_graph_def route_library_def example_library_def route_heap_def has_node_def)

lemma route_path:
  "shortest_path route_library
     (working_graph route_library (objs route_heap 0) (objs route_heap 1) (objs route_heap 2))
     (Vehicle 0) (Vehicle 1)
   = Inr [Vehicle 0, Intersection 1, Intersection 2, Vehicle 1]"
  unfolding route_graph
  by (simp add: route_library_def search_shortest_path_def neighbours_def hop_length_def
      joins_def street_edge_def vehicle_edge_def)

lemma route_line:
  "pair_route route_library (objs route_heap 0) (objs route_heap 1) (objs route_heap 2)
   = Inr (LineString [(0, 0), (10, 0), (10, 10), (10, 20)])"
proof -
  have nv: "node_veh (objs route_heap 1) = Some (Vehicle 0)"
    "node_veh (objs route_heap 2) = Some (Vehicle 1)"
    by (simp_all add: route_heap_def)
  have "line_route_between_nodes route_library (Vehicle 0) (Vehicle 1)
     (working_graph route_library (objs route_heap 0) (objs route_heap 1) (objs route_heap 2))
   = Inr (LineString [(0, 0), (10, 0), (10, 10), (10, 20)])"
    unfolding line_route_between_nodes_def route_path
    unfolding route_graph
    by (simp add: route_library_def joins_def street_edge_def vehicle_edge_def)
  then show ?thesis using nv by (simp add: pair_route_def working_graph_def)
qed

lemma route_check:
  "fst (check_if_cons_orthogonal lib 0 1 [2] max_angle route_heap)
     = (case pair_route lib (objs route_heap 0) (objs route_heap 1) (objs route_heap 2) of
          Inl e \<Rightarrow> Inl e
        | Inr route \<Rightarrow>
            (case orthogonal_of_route max_angle route of
               Inl e \<Rightarrow> Inl e | Inr r \<Rightarrow> Inr ([fst r], [snd r])))"
  by (simp add: check_if_cons_orthogonal_def nx_compose_def route_heap_def pair_route_def
      split: sum.splits)

lemma corner_then_straight:
  "orthogonal_of_route pi (LineString [(0, 0), (10, 0), (10, 10), (10, 20)]) = Inr (True, (10, 0))"
  by (simp add: orthogonal_of_route_def angles_along_line_def coords_of_def np_arctan2_def
      wrap_to_pi_def np_mod_def np_argmax_def py_sum_def Let_def floor_three_quarters)

lemma floor_quarter: "\<lfloor>(- (pi / 2) + pi) / (2 * pi)\<rfloor> = 0"
proof -
  have "(- (pi / 2) + pi) / (2 * pi) = 1 / 4" by (simp add: field_simps)
  then show ?thesis by simp
qed

lemma turn_contribution_example:
  "turn_contribution [(0, 0), (10, 0), (10, 10), (10, 20)] 0 = pi / 2"
  "turn_contribution [(0, 0), (10, 0), (10, 10), (10, 20)] 1 = 0"
  by (simp_all add: turn_contribution_def direction_change_def bearing_def np_arctan2_def
      wrap_to_pi_def np_mod_def floor_quarter)





text \<open>
  C2: whenever \<open>check_if_cons_orthogonal\<close> returns, it returns one flag per other vehicle.
  For every pair, the route is the merge of the lines of edges of least length between
  the consecutive nodes of the path that \<^verbatim>\<open>nx.shortest_path\<close> gives from the own
  vehicle's node to the other's in the working graph; it has at least three coordinates;
  \<open>\<pi>\<close> minus the magnitude of the wrapped angle that the code computes at an interior
  vertex is the turn contribution of that vertex; and the flag of the pair is True
  (orthogonal) if and only if the sum of the turn contributions over the interior vertices
  is strictly less than the maximum angle, and False (parallel) otherwise. The call returns
  whenever the own graph names its vehicle node and every pair has a route of at least
  three coordinates. The maximum angle of a call that gives none is \<open>\<pi>\<close>.
\<close>

theorem check_if_cons_orthogonal_classification:
  assumes "streets_wave < next_ref h" and "graph_veh_own < next_ref h"
    and "\<forall>g \<in> set graphs_veh_other. g < next_ref h"
  shows "(\<forall>flags coords h'.
            check_if_cons_orthogonal lib streets_wave graph_veh_own graphs_veh_other max_angle h
              = (Inr (flags, coords), h') \<longrightarrow>
            length flags = length graphs_veh_other
          \<and> (\<forall>i < length graphs_veh_other. \<exists>node_own node_v path lines cs angles.
                node_veh (objs h graph_veh_own) = Some node_own
              \<and> node_veh (objs h (graphs_veh_other ! i)) = Some node_v
              \<and> shortest_path lib
                    (working_graph lib (objs h streets_wave) (objs h graph_veh_own)
                       (objs h (graphs_veh_other ! i))) node_own node_v = Inr path
              \<and> length lines = length path - 1
              \<and> (\<forall>k < length path - 1. \<exists>e.
                    least_edge
                      (working_graph lib (objs h streets_wave) (objs h graph_veh_own)
                         (objs h (graphs_veh_other ! i))) (path ! k) (path ! Suc k) e
                  \<and> lines ! k = edge_geometry e)
              \<and> linemerge lib lines = LineString cs \<and> 3 \<le> length cs
              \<and> angles_along_line (LineString cs) = Inr angles
              \<and> length angles = length cs - 2
              \<and> (\<forall>k < length cs - 2.
                    pi - \<bar>wrap_to_pi (angles ! k)\<bar> = turn_contribution cs k)
              \<and> (flags ! i \<longleftrightarrow>
                    (\<Sum>k = 0..<length cs - 2. turn_contribution cs k) < max_angle)))
       \<and> ((\<exists>node_own. node_veh (objs h graph_veh_own) = Some node_own)
          \<and> (\<forall>g \<in> set graphs_veh_other. \<exists>cs.
                pair_route lib (objs h streets_wave) (objs h graph_veh_own) (objs h g)
                  = Inr (LineString cs) \<and> 3 \<le> length cs) \<longrightarrow>
          (\<exists>flags coords h'.
            check_if_cons_orthogonal lib streets_wave graph_veh_own graphs_veh_other max_angle h
              = (Inr (flags, coords), h')))
       \<and> check_if_cons_orthogonal_default lib streets_wave graph_veh_own graphs_veh_other h
           = check_if_cons_orthogonal lib streets_wave graph_veh_own graphs_veh_other pi h"
proof (intro conjI allI impI)
  fix flags coords h'
  assume r: "check_if_cons_orthogonal lib streets_wave graph_veh_own graphs_veh_other max_angle h
              = (Inr (flags, coords), h')"
  note res = check_if_cons_orthogonal_result[OF assms r]
  show "length flags = length graphs_veh_other" using res by simp
  fix i assume "i < length graphs_veh_other"
  with res obtain route angles x where
    "pair_route lib (objs h streets_wave) (objs h graph_veh_own)
          (objs h (graphs_veh_other ! i)) = Inr route"
    "orthogonal_of_route max_angle route = Inr x"
    "angles_along_line route = Inr angles"
    "flags ! i \<longleftrightarrow> sum_list (contributions_of angles) < max_angle"
    by blast
  then show "\<exists>node_own node_v path lines cs angles.
                node_veh (objs h graph_veh_own) = Some node_own
              \<and> node_veh (objs h (graphs_veh_other ! i)) = Some node_v
              \<and> shortest_path lib
                    (working_graph lib (objs h streets_wave) (objs h graph_veh_own)
                       (objs h (graphs_veh_other ! i))) node_own node_v = Inr path
              \<and> length lines = length path - 1
              \<and> (\<forall>k < length path - 1. \<exists>e.
                    least_edge
                      (working_graph lib (objs h streets_wave) (objs h graph_veh_own)
                         (objs h (graphs_veh_other ! i))) (path ! k) (path ! Suc k) e
                  \<and> lines ! k = edge_geometry e)
              \<and> linemerge lib lines = LineString cs \<and> 3 \<le> length cs
              \<and> angles_along_line (LineString cs) = Inr angles
              \<and> length angles = length cs - 2
              \<and> (\<forall>k < length cs - 2.
                    pi - \<bar>wrap_to_pi (angles ! k)\<bar> = turn_contribution cs k)
              \<and> (flags ! i \<longleftrightarrow>
                    (\<Sum>k = 0..<length cs - 2. turn_contribution cs k) < max_angle)"
    by (rule classified_pair)
next
  assume "(\<exists>node_own. node_veh (objs h graph_veh_own) = Some node_own)
          \<and> (\<forall>g \<in> set graphs_veh_other. \<exists>cs.
                pair_route lib (objs h streets_wave) (objs h graph_veh_own) (objs h g)
                  = Inr (LineString cs) \<and> 3 \<le> length cs)"
  then obtain node_own where n: "node_veh (objs h graph_veh_own) = Some node_own"
    and t: "\<forall>g \<in> set graphs_veh_other. \<exists>cs.
                pair_route lib (objs h streets_wave) (objs h graph_veh_own) (objs h g)
                  = Inr (LineString cs) \<and> 3 \<le> length cs" by blast
  from check_if_cons_orthogonal_total[OF assms n t]
  show "\<exists>flags coords h'.
            check_if_cons_orthogonal lib streets_wave graph_veh_own graphs_veh_other max_angle h
              = (Inr (flags, coords), h')" .
next
  show "check_if_cons_orthogonal_default lib streets_wave graph_veh_own graphs_veh_other h
           = check_if_cons_orthogonal lib streets_wave graph_veh_own graphs_veh_other pi h"
    by (simp add: check_if_cons_orthogonal_default_def)
qed

text \<open>
  Vehicle 0 at \<open>(0, 0)\<close> and vehicle 1 at \<open>(10, 20)\<close>: the shortest path runs over
  the second and the third intersection and takes the shorter of the two parallel streets
  between them; the route turns by a right angle at \<open>(10, 0)\<close>, which contributes
  \<open>\<pi>/2\<close>, and goes straight on at \<open>(10, 10)\<close>, which contributes 0; the pair is
  orthogonal.
\<close>

theorem check_if_cons_orthogonal_classification_witness:
  "0 < next_ref route_heap \<and> 1 < next_ref route_heap \<and> 2 < next_ref route_heap
   \<and> fst (check_if_cons_orthogonal route_library 0 1 [2] pi route_heap) = Inr ([True], [(10, 0)])
   \<and> pair_route route_library (objs route_heap 0) (objs route_heap 1) (objs route_heap 2)
       = Inr (LineString [(0, 0), (10, 0), (10, 10), (10, 20)])
   \<and> turn_contribution [(0, 0), (10, 0), (10, 10), (10, 20)] 0 = pi / 2
   \<and> turn_contribution [(0, 0), (10, 0), (10, 10), (10, 20)] 1 = 0
   \<and> (\<exists>lines cs.
         shortest_path route_library
           (working_graph route_library (objs route_heap 0) (objs route_heap 1) (objs route_heap 2))
           (Vehicle 0) (Vehicle 1) = Inr [Vehicle 0, Intersection 1, Intersection 2, Vehicle 1]
       \<and> length lines = 3
       \<and> linemerge route_library lines = LineString cs \<and> 3 \<le> length cs
       \<and> (\<Sum>k = 0..<length cs - 2. turn_contribution cs k) < pi)"
proof -
  let ?c = "check_if_cons_orthogonal route_library 0 1 [2] pi route_heap"
  let ?W = "working_graph route_library (objs route_heap 0) (objs route_heap 1) (objs route_heap 2)"
  have v: "0 < next_ref route_heap" "1 < next_ref route_heap" "\<forall>g \<in> set [2]. g < next_ref route_heap"
    by (simp_all add: route_heap_def)
  have nv: "node_veh (objs route_heap 1) = Some (Vehicle 0)"
    "node_veh (objs route_heap 2) = Some (Vehicle 1)"
    by (simp_all add: route_heap_def)
  have f: "fst ?c = Inr ([True], [(10, 0)])"
    using route_check[of route_library pi] route_line corner_then_straight by simp
  then have c: "?c = (Inr ([True], [(10, 0)]), snd ?c)" by (metis prod.collapse)
  from check_if_cons_orthogonal_classification[OF v, of route_library pi] c
  have "\<forall>i < length [2::nat]. \<exists>node_own node_v path lines cs angles.
                node_veh (objs route_heap 1) = Some node_own
              \<and> node_veh (objs route_heap ([2] ! i)) = Some node_v
              \<and> shortest_path route_library
                    (working_graph route_library (objs route_heap 0) (objs route_heap 1)
                       (objs route_heap ([2] ! i))) node_own node_v = Inr path
              \<and> length lines = length path - 1
              \<and> (\<forall>k < length path - 1. \<exists>e.
                    least_edge
                      (working_graph route_library (objs route_heap 0) (objs route_heap 1)
                         (objs route_heap ([2] ! i))) (path ! k) (path ! Suc k) e
                  \<and> lines ! k = edge_geometry e)
              \<and> linemerge route_library lines = LineString cs \<and> 3 \<le> length cs
              \<and> angles_along_line (LineString cs) = Inr angles
              \<and> length angles = length cs - 2
              \<and> (\<forall>k < length cs - 2.
                    pi - \<bar>wrap_to_pi (angles ! k)\<bar> = turn_contribution cs k)
              \<and> ([True] ! i \<longleftrightarrow>
                    (\<Sum>k = 0..<length cs - 2. turn_contribution cs k) < pi)"
    by blast
  then obtain node_own node_v path lines cs where
    n: "node_veh (objs route_heap 1) = Some node_own" "node_veh (objs route_heap 2) = Some node_v"
    and p: "shortest_path route_library ?W node_own node_v = Inr path"
    and l: "length lines = length path - 1"
      "linemerge route_library lines = LineString cs" "3 \<le> length cs"
      "(\<Sum>k = 0..<length cs - 2. turn_contribution cs k) < pi"
    by fastforce
  from n nv have "node_own = Vehicle 0" "node_v = Vehicle 1" by simp_all
  with p route_path have "path = [Vehicle 0, Intersection 1, Intersection 2, Vehicle 1]" by simp
  with l(1) have len3: "length lines = 3" by simp
  have "\<exists>lines cs.
         shortest_path route_library ?W (Vehicle 0) (Vehicle 1)
           = Inr [Vehicle 0, Intersection 1, Intersection 2, Vehicle 1]
       \<and> length lines = 3
       \<and> linemerge route_library lines = LineString cs \<and> 3 \<le> length cs
       \<and> (\<Sum>k = 0..<length cs - 2. turn_contribution cs k) < pi"
    using route_path len3 l(2,3,4) by blast
  with v f route_line turn_contribution_example show ?thesis by simp
qed

text \<open>
  C9: the graph that the reference \<open>streets_wave\<close> holds is the same after a call of
  \<open>check_if_cons_orthogonal\<close> as before it, whether the call returns or raises: the
  compositions are new objects, and nothing writes to an object that existed before.
\<close>

theorem check_if_cons_orthogonal_frame:
  assumes "streets_wave < next_ref h"
  shows "objs (snd (check_if_cons_orthogonal lib streets_wave graph_veh_own graphs_veh_other
                      max_angle h)) streets_wave = objs h streets_wave"
  using assms by (rule check_if_cons_orthogonal_heap)

theorem check_if_cons_orthogonal_frame_witness:
  "0 < next_ref (example_heap [(0, 0), (1, 0), (1, 1)])
   \<and> objs (snd (check_if_cons_orthogonal example_library 0 1 [2] pi
                  (example_heap [(0, 0), (1, 0), (1, 1)]))) 0
      = objs (example_heap [(0, 0), (1, 0), (1, 1)]) 0"
proof -
  have v: "0 < next_ref (example_heap [(0, 0), (1, 0), (1, 1)])"
    by (simp add: example_heap_def)
  from check_if_cons_orthogonal_frame[OF v, of example_library 1 "[2]" pi] v
  show ?thesis by simp
qed

subsection \<open>Visibility graph builder\<close>

lemma has_node_iff: "has_node g n \<longleftrightarrow> n \<in> fst ` set (gnodes g)"
  by (auto simp: has_node_def list_ex_iff)

lemma has_edge_iff: "has_edge g u v \<longleftrightarrow> (\<exists>e \<in> set (gedges g). joins u v e)"
  by (simp add: has_edge_def list_ex_iff)

lemma add_node_present: "has_node g n \<Longrightarrow> add_node g n = g"
  by (simp add: add_node_def)

lemma new_key_Nil: "new_key [] = 0"
  by (simp add: new_key_def)

lemma add_edge_fresh:
  assumes "has_node g u" and "has_node g v" and "\<not> has_edge g u v"
  shows "add_edge g u v len geometry =
     g\<lparr>gedges := gedges g @
         [\<lparr>edge_u = u, edge_v = v, edge_key = 0, edge_length = len, edge_geometry = geometry\<rparr>]\<rparr>"
proof -
  have "filter (joins u v) (gedges g) = []"
    using assms(3) by (auto simp: has_edge_iff filter_empty_conv)
  then show ?thesis
    using assms(1,2) by (simp add: add_edge_def add_node_present Let_def new_key_Nil)
qed

lemma has_edge_append:
  "has_edge (g\<lparr>gedges := gedges g @ es\<rparr>) a b \<longleftrightarrow> has_edge g a b \<or> (\<exists>e \<in> set es. joins a b e)"
  by (auto simp: has_edge_iff)

lemma joins_straight_edge:
  "joins a b (straight_edge u cu n) \<longleftrightarrow> (u = a \<and> fst n = b) \<or> (u = b \<and> fst n = a)"
  by (auto simp: joins_def straight_edge_def)

lemma qualifies_cong:
  assumes "has_edge g' u (fst n) = has_edge g u (fst n)"
  shows "qualifies i b m g' u cu n = qualifies i b m g u cu n"
  using assms by (simp add: qualifies_def split: option.splits)

lemma add_edges_inner_edges:
  assumes "distinct (map fst rest)" and "u \<notin> fst ` set rest"
    and "\<forall>n \<in> set rest. snd n \<noteq> None"
    and "has_node g u" and "\<forall>n \<in> set rest. has_node g (fst n)"
  shows "add_edges_inner i b m u cu rest g =
     Inr (g\<lparr>gedges := gedges g @ map (straight_edge u cu) (filter (qualifies i b m g u cu) rest)\<rparr>)"
  using assms
proof (induction rest arbitrary: g)
  case Nil
  then show ?case by simp
next
  case (Cons n rest)
  obtain v xy where n: "n = (v, xy)" by (cases rule: prod.exhaust)
  from Cons.prems(3) n obtain cv where xy: "xy = Some cv" by auto
  have pre: "distinct (map fst rest)" "u \<notin> fst ` set rest" "\<forall>n \<in> set rest. snd n \<noteq> None"
    using Cons.prems by auto
  have v: "v \<notin> fst ` set rest" "u \<noteq> v" using Cons.prems(1,2) n by auto
  show ?case
  proof (cases rule: case_split[of "qualifies i b m g u cu n"])
    case False
    then have skip: "add_edges_inner i b m u cu (n # rest) g = add_edges_inner i b m u cu rest g"
      using n xy by (auto simp: qualifies_def Let_def)
    from Cons.IH[OF pre] Cons.prems(4,5) False skip show ?thesis by simp
  next
    case True
    then have q: "\<not> has_edge g u v" "euclid cu cv \<le> m"
      "\<not> line_intersects_buildings i [cu, cv] b"
      using n xy by (auto simp: qualifies_def)
    let ?e = "straight_edge u cu n"
    let ?g = "g\<lparr>gedges := gedges g @ [?e]\<rparr>"
    have ae: "add_edge g u v (euclid cu cv) [cu, cv] = ?g"
      using add_edge_fresh[OF _ _ q(1), of "euclid cu cv" "[cu, cv]"] Cons.prems(4,5) n xy
      by (simp add: straight_edge_def)
    have step: "add_edges_inner i b m u cu (n # rest) g = add_edges_inner i b m u cu rest ?g"
      using n xy q ae by (simp add: Let_def)
    have nodes: "has_node ?g u" "\<forall>n \<in> set rest. has_node ?g (fst n)"
      using Cons.prems(4,5) by (auto simp: has_node_iff)
    have same: "filter (qualifies i b m ?g u cu) rest = filter (qualifies i b m g u cu) rest"
    proof (rule filter_cong[OF refl])
      fix w assume w: "w \<in> set rest"
      then have "fst w \<noteq> v" "fst w \<noteq> u" using v(1) pre(2) by auto
      then have "has_edge ?g u (fst w) = has_edge g u (fst w)"
        using n by (auto simp: has_edge_append joins_straight_edge)
      then show "qualifies i b m ?g u cu w = qualifies i b m g u cu w"
        by (rule qualifies_cong)
    qed
    from Cons.IH[OF pre nodes] same step True show ?thesis by simp
  qed
qed


lemma visible_edges_cong:
  assumes "\<forall>a \<in> fst ` set ns. \<forall>c \<in> fst ` set ns. has_edge g' a c = has_edge g a c"
  shows "visible_edges i b m g' ns = visible_edges i b m g ns"
  using assms
proof (induction ns)
  case Nil
  then show ?case by simp
next
  case (Cons n rest)
  have "filter (qualifies i b m g' (fst n) (the (snd n))) rest
      = filter (qualifies i b m g (fst n) (the (snd n))) rest"
  proof (rule filter_cong[OF refl])
    fix w assume "w \<in> set rest"
    then have "has_edge g' (fst n) (fst w) = has_edge g (fst n) (fst w)"
      using Cons.prems by auto
    then show "qualifies i b m g' (fst n) (the (snd n)) w = qualifies i b m g (fst n) (the (snd n)) w"
      by (rule qualifies_cong)
  qed
  moreover have "visible_edges i b m g' rest = visible_edges i b m g rest"
    using Cons.IH Cons.prems by auto
  ultimately show ?case by simp
qed

lemma add_edges_outer_edges:
  assumes "distinct (map fst ns)" and "\<forall>n \<in> set ns. snd n \<noteq> None"
    and "\<forall>n \<in> set ns. has_node g (fst n)"
  shows "add_edges_outer i b m ns g = Inr (g\<lparr>gedges := gedges g @ visible_edges i b m g ns\<rparr>)"
  using assms
proof (induction ns arbitrary: g)
  case Nil
  then show ?case by simp
next
  case (Cons n rest)
  obtain u xy where n: "n = (u, xy)" by (cases rule: prod.exhaust)
  from Cons.prems(2) n obtain cu where xy: "xy = Some cu" by auto
  have pre: "distinct (map fst rest)" "\<forall>n \<in> set rest. snd n \<noteq> None"
    using Cons.prems by auto
  have u: "u \<notin> fst ` set rest" using Cons.prems(1) n by auto
  let ?new = "map (straight_edge u cu) (filter (qualifies i b m g u cu) rest)"
  let ?g = "g\<lparr>gedges := gedges g @ ?new\<rparr>"
  have inner: "add_edges_inner i b m u cu rest g = Inr ?g"
    using add_edges_inner_edges[OF pre(1) u pre(2), of g i b m cu] Cons.prems(3) n by simp
  have nodes: "\<forall>n \<in> set rest. has_node ?g (fst n)"
    using Cons.prems(3) by (auto simp: has_node_iff)
  have "\<forall>a \<in> fst ` set rest. \<forall>c \<in> fst ` set rest. has_edge ?g a c = has_edge g a c"
    using u by (auto simp: has_edge_append joins_straight_edge)
  then have same: "visible_edges i b m ?g rest = visible_edges i b m g rest"
    by (rule visible_edges_cong)
  from Cons.IH[OF pre nodes] same inner n xy show ?case by simp
qed

lemma visible_edges_set:
  "e \<in> set (visible_edges i b m g ns) \<longleftrightarrow>
     (\<exists>k l. k < l \<and> l < length ns
        \<and> qualifies i b m g (fst (ns ! k)) (the (snd (ns ! k))) (ns ! l)
        \<and> e = straight_edge (fst (ns ! k)) (the (snd (ns ! k))) (ns ! l))"
proof (induction ns)
  case Nil
  then show ?case by simp
next
  case (Cons n rest)
  let ?P = "\<lambda>ns k l. k < l \<and> l < length ns
        \<and> qualifies i b m g (fst (ns ! k)) (the (snd (ns ! k))) (ns ! l)
        \<and> e = straight_edge (fst (ns ! k)) (the (snd (ns ! k))) (ns ! l)"
  have first: "e \<in> set (map (straight_edge (fst n) (the (snd n)))
                  (filter (qualifies i b m g (fst n) (the (snd n))) rest))
      \<longleftrightarrow> (\<exists>l. ?P (n # rest) 0 (Suc l))"
    by (auto simp: in_set_conv_nth[of _ rest])
  have second: "e \<in> set (visible_edges i b m g rest) \<longleftrightarrow> (\<exists>k l. ?P (n # rest) (Suc k) (Suc l))"
    using Cons.IH by simp
  have "(\<exists>k l. ?P (n # rest) k l) \<longleftrightarrow>
      (\<exists>l. ?P (n # rest) 0 (Suc l)) \<or> (\<exists>k l. ?P (n # rest) (Suc k) (Suc l))"
  proof
    assume "\<exists>k l. ?P (n # rest) k l"
    then obtain k l where kl: "?P (n # rest) k l" by blast
    then obtain l' where l: "l = Suc l'" by (cases l) auto
    show "(\<exists>l. ?P (n # rest) 0 (Suc l)) \<or> (\<exists>k l. ?P (n # rest) (Suc k) (Suc l))"
    proof (cases k)
      case 0
      with kl l show ?thesis by blast
    next
      case (Suc k')
      with kl l show ?thesis by blast
    qed
  next
    assume "(\<exists>l. ?P (n # rest) 0 (Suc l)) \<or> (\<exists>k l. ?P (n # rest) (Suc k) (Suc l))"
    then show "\<exists>k l. ?P (n # rest) k l" by blast
  qed
  with first second show ?case by simp
qed


lemma line_intersects_buildings_iff:
  "line_intersects_buildings intersects line buildings \<longleftrightarrow> (\<exists>p \<in> set buildings. intersects line p)"
  by (induction buildings) auto

lemma add_edges_if_los_edges:
  assumes "distinct (map fst (gnodes g))" and "list_all (\<lambda>n. snd n \<noteq> None) (gnodes g)"
  shows "add_edges_if_los i g b m = Inr (g\<lparr>gedges := gedges g @ visible_edges i b m g (gnodes g)\<rparr>)"
proof -
  have "\<forall>n \<in> set (gnodes g). snd n \<noteq> None" using assms(2) by (simp add: list_all_iff)
  moreover have "\<forall>n \<in> set (gnodes g). has_node g (fst n)" by (auto simp: has_node_iff)
  ultimately show ?thesis
    unfolding add_edges_if_los_def using assms(1) by (rule add_edges_outer_edges[rotated])
qed

lemma visible_edges_joins:
  assumes "distinct (map fst ns)" and "k < l" and "l < length ns"
  shows "(\<exists>e \<in> set (visible_edges i b m g ns). joins (fst (ns ! k)) (fst (ns ! l)) e)
     \<longleftrightarrow> qualifies i b m g (fst (ns ! k)) (the (snd (ns ! k))) (ns ! l)"
proof
  assume "\<exists>e \<in> set (visible_edges i b m g ns). joins (fst (ns ! k)) (fst (ns ! l)) e"
  then obtain e where e: "e \<in> set (visible_edges i b m g ns)"
    and je: "joins (fst (ns ! k)) (fst (ns ! l)) e" by blast
  from e[unfolded visible_edges_set] obtain k' l' where kl: "k' < l'" "l' < length ns"
    and q: "qualifies i b m g (fst (ns ! k')) (the (snd (ns ! k'))) (ns ! l')"
    and ee: "e = straight_edge (fst (ns ! k')) (the (snd (ns ! k'))) (ns ! l')"
    by blast
  from je ee have j: "joins (fst (ns ! k)) (fst (ns ! l))
              (straight_edge (fst (ns ! k')) (the (snd (ns ! k'))) (ns ! l'))"
    by simp
  have inj: "\<And>x y. x < length ns \<Longrightarrow> y < length ns \<Longrightarrow> fst (ns ! x) = fst (ns ! y) \<Longrightarrow> x = y"
    using assms(1) by (metis distinct_conv_nth length_map nth_map)
  from j have "(fst (ns ! k') = fst (ns ! k) \<and> fst (ns ! l') = fst (ns ! l))
      \<or> (fst (ns ! k') = fst (ns ! l) \<and> fst (ns ! l') = fst (ns ! k))"
    by (simp add: joins_straight_edge)
  then have "k' = k \<and> l' = l"
  proof
    assume "fst (ns ! k') = fst (ns ! k) \<and> fst (ns ! l') = fst (ns ! l)"
    then show ?thesis using inj[of k' k] inj[of l' l] kl assms(2,3) by simp
  next
    assume "fst (ns ! k') = fst (ns ! l) \<and> fst (ns ! l') = fst (ns ! k)"
    then have "k' = l" "l' = k" using inj[of k' l] inj[of l' k] kl assms(2,3) by simp_all
    with kl assms(2) show ?thesis by simp
  qed
  with q show "qualifies i b m g (fst (ns ! k)) (the (snd (ns ! k))) (ns ! l)" by simp
next
  assume "qualifies i b m g (fst (ns ! k)) (the (snd (ns ! k))) (ns ! l)"
  then have "straight_edge (fst (ns ! k)) (the (snd (ns ! k))) (ns ! l)
      \<in> set (visible_edges i b m g ns)"
    unfolding visible_edges_set using assms(2,3) by blast
  moreover have "joins (fst (ns ! k)) (fst (ns ! l))
      (straight_edge (fst (ns ! k)) (the (snd (ns ! k))) (ns ! l))"
    by (simp add: joins_straight_edge)
  ultimately show "\<exists>e \<in> set (visible_edges i b m g ns). joins (fst (ns ! k)) (fst (ns ! l)) e"
    by blast
qed

text \<open>
  C6: on a street graph whose nodes are distinct and all have coordinates,
  \<open>add_edges_if_los\<close> returns a graph with the same nodes whose edges are the old edges
  followed by new ones. Every new edge joins two nodes that no edge joined before, with
  the Euclidean distance of the nodes as its length and the straight segment between them
  as its geometry. For every pair of nodes that no edge joined before, an edge joins them
  afterwards if and only if their distance is at most the maximum distance and the
  straight segment between them intersects no building. The maximum distance of a call
  that gives none is 50.
\<close>

theorem add_edges_if_los_adds:
  assumes "distinct (map fst (gnodes g))" and "list_all (\<lambda>n. snd n \<noteq> None) (gnodes g)"
  shows "\<exists>g'. add_edges_if_los intersects g buildings max_distance = Inr g'
     \<and> gnodes g' = gnodes g
     \<and> (\<exists>new. gedges g' = gedges g @ new
          \<and> (\<forall>e \<in> set new. \<exists>i j. i < j \<and> j < length (gnodes g)
                \<and> \<not> has_edge g (node_at g i) (node_at g j)
                \<and> edge_u e = node_at g i \<and> edge_v e = node_at g j
                \<and> edge_length e = euclid (coord_at g i) (coord_at g j)
                \<and> edge_geometry e = [coord_at g i, coord_at g j]))
     \<and> (\<forall>i j. i < j \<and> j < length (gnodes g) \<and> \<not> has_edge g (node_at g i) (node_at g j) \<longrightarrow>
          (has_edge g' (node_at g i) (node_at g j) \<longleftrightarrow>
             euclid (coord_at g i) (coord_at g j) \<le> max_distance
           \<and> \<not> (\<exists>p \<in> set buildings. intersects [coord_at g i, coord_at g j] p)))
     \<and> add_edges_if_los_default intersects g buildings
         = add_edges_if_los intersects g buildings 50"
proof -
  let ?ns = "gnodes g"
  let ?new = "visible_edges intersects buildings max_distance g ?ns"
  let ?g = "g\<lparr>gedges := gedges g @ ?new\<rparr>"
  have run: "add_edges_if_los intersects g buildings max_distance = Inr ?g"
    using assms by (rule add_edges_if_los_edges)
  have coords: "\<And>j. j < length ?ns \<Longrightarrow> snd (?ns ! j) = Some (coord_at g j)"
    using assms(2) by (auto simp: list_all_length coord_at_def)
  have new: "\<forall>e \<in> set ?new. \<exists>i j. i < j \<and> j < length ?ns
                \<and> \<not> has_edge g (node_at g i) (node_at g j)
                \<and> edge_u e = node_at g i \<and> edge_v e = node_at g j
                \<and> edge_length e = euclid (coord_at g i) (coord_at g j)
                \<and> edge_geometry e = [coord_at g i, coord_at g j]"
  proof
    fix e assume "e \<in> set ?new"
    then obtain k l where kl: "k < l" "l < length ?ns"
      and q: "qualifies intersects buildings max_distance g (fst (?ns ! k)) (the (snd (?ns ! k))) (?ns ! l)"
      and e: "e = straight_edge (fst (?ns ! k)) (the (snd (?ns ! k))) (?ns ! l)"
      unfolding visible_edges_set by blast
    from q coords[OF kl(2)] have "\<not> has_edge g (node_at g k) (node_at g l)"
      by (simp add: qualifies_def node_at_def)
    moreover have "edge_u e = node_at g k" "edge_v e = node_at g l"
      "edge_length e = euclid (coord_at g k) (coord_at g l)"
      "edge_geometry e = [coord_at g k, coord_at g l]"
      using e by (simp_all add: straight_edge_def node_at_def coord_at_def)
    ultimately show "\<exists>i j. i < j \<and> j < length ?ns
                \<and> \<not> has_edge g (node_at g i) (node_at g j)
                \<and> edge_u e = node_at g i \<and> edge_v e = node_at g j
                \<and> edge_length e = euclid (coord_at g i) (coord_at g j)
                \<and> edge_geometry e = [coord_at g i, coord_at g j]"
      using kl by blast
  qed
  have iff: "\<forall>i j. i < j \<and> j < length ?ns \<and> \<not> has_edge g (node_at g i) (node_at g j) \<longrightarrow>
          (has_edge ?g (node_at g i) (node_at g j) \<longleftrightarrow>
             euclid (coord_at g i) (coord_at g j) \<le> max_distance
           \<and> \<not> (\<exists>p \<in> set buildings. intersects [coord_at g i, coord_at g j] p))"
  proof (intro allI impI)
    fix i j assume a: "i < j \<and> j < length ?ns \<and> \<not> has_edge g (node_at g i) (node_at g j)"
    then have ij: "i < j" "j < length ?ns" and ne: "\<not> has_edge g (node_at g i) (node_at g j)"
      by simp_all
    have "has_edge ?g (node_at g i) (node_at g j)
        \<longleftrightarrow> (\<exists>e \<in> set ?new. joins (node_at g i) (node_at g j) e)"
      using ne by (simp add: has_edge_append)
    also have "\<dots> \<longleftrightarrow> qualifies intersects buildings max_distance g (fst (?ns ! i))
                        (the (snd (?ns ! i))) (?ns ! j)"
      unfolding node_at_def using assms(1) ij by (rule visible_edges_joins)
    also have "\<dots> \<longleftrightarrow> euclid (coord_at g i) (coord_at g j) \<le> max_distance
           \<and> \<not> (\<exists>p \<in> set buildings. intersects [coord_at g i, coord_at g j] p)"
      using ne
      by (simp add: qualifies_def node_at_def coords[OF ij(2)] coord_at_def[of g i, symmetric]
          line_intersects_buildings_iff)
    finally show "has_edge ?g (node_at g i) (node_at g j) \<longleftrightarrow>
             euclid (coord_at g i) (coord_at g j) \<le> max_distance
           \<and> \<not> (\<exists>p \<in> set buildings. intersects [coord_at g i, coord_at g j] p)" .
  qed
  have "gnodes ?g = gnodes g \<and> gedges ?g = gedges g @ ?new" by simp
  with run new iff show ?thesis
    unfolding add_edges_if_los_default_def by blast
qed

lemma no_members_Nil: "(\<And>e. e \<notin> set xs) \<Longrightarrow> xs = []"
  by (cases xs) auto

text \<open>
  C7: on a street graph whose nodes are distinct and all have coordinates, a second run
  of \<open>add_edges_if_los\<close> with the same buildings and maximum distance returns the graph
  of the first run as it is: no edge is added, duplicated or altered.
\<close>

theorem add_edges_if_los_idempotent:
  assumes "distinct (map fst (gnodes g))" and "list_all (\<lambda>n. snd n \<noteq> None) (gnodes g)"
  shows "\<exists>g1. add_edges_if_los intersects g buildings max_distance = Inr g1
     \<and> add_edges_if_los intersects g1 buildings max_distance = Inr g1"
proof -
  let ?ns = "gnodes g"
  let ?new = "visible_edges intersects buildings max_distance g ?ns"
  let ?g = "g\<lparr>gedges := gedges g @ ?new\<rparr>"
  have run: "add_edges_if_los intersects g buildings max_distance = Inr ?g"
    using assms by (rule add_edges_if_los_edges)
  have again: "add_edges_if_los intersects ?g buildings max_distance
      = Inr (?g\<lparr>gedges := gedges ?g @ visible_edges intersects buildings max_distance ?g (gnodes ?g)\<rparr>)"
    using assms by (intro add_edges_if_los_edges) simp_all
  have "e \<notin> set (visible_edges intersects buildings max_distance ?g ?ns)" for e
  proof
    assume "e \<in> set (visible_edges intersects buildings max_distance ?g ?ns)"
    then obtain k l where kl: "k < l" "l < length ?ns"
      and q: "qualifies intersects buildings max_distance ?g (fst (?ns ! k))
                (the (snd (?ns ! k))) (?ns ! l)"
      unfolding visible_edges_set by blast
    from q have no: "\<not> has_edge ?g (fst (?ns ! k)) (fst (?ns ! l))"
      by (auto simp: qualifies_def split: option.splits)
    then have "\<not> has_edge g (fst (?ns ! k)) (fst (?ns ! l))"
      by (simp add: has_edge_append)
    with q have "qualifies intersects buildings max_distance g (fst (?ns ! k))
                (the (snd (?ns ! k))) (?ns ! l)"
      by (auto simp: qualifies_def split: option.splits)
    then have "\<exists>e \<in> set ?new. joins (fst (?ns ! k)) (fst (?ns ! l)) e"
      using visible_edges_joins[OF assms(1) kl, of intersects buildings max_distance g] by simp
    then have "has_edge ?g (fst (?ns ! k)) (fst (?ns ! l))"
      by (simp add: has_edge_append)
    with no show False by simp
  qed
  then have "visible_edges intersects buildings max_distance ?g ?ns = []"
    by (rule no_members_Nil)
  then have "visible_edges intersects buildings max_distance ?g (gnodes ?g) = []" by simp
  with again have "add_edges_if_los intersects ?g buildings max_distance = Inr ?g" by simp
  with run show ?thesis by blast
qed


lemma example_streets_wellformed:
  "distinct (map fst (gnodes example_streets))"
  "list_all (\<lambda>n. snd n \<noteq> None) (gnodes example_streets)"
  by (simp_all add: example_streets_def)

text \<open>
  In the example the first two intersections, 30 apart, get an edge; the first and the
  third, 100 apart, do not; the first and the fourth, 40 apart, do not either, as a
  building blocks the line.
\<close>

theorem add_edges_if_los_adds_witness:
  "distinct (map fst (gnodes example_streets))
   \<and> list_all (\<lambda>n. snd n \<noteq> None) (gnodes example_streets)
   \<and> (\<exists>g'. add_edges_if_los_default blocks example_streets example_buildings = Inr g'
         \<and> has_edge g' (Intersection 1) (Intersection 2)
         \<and> \<not> has_edge g' (Intersection 1) (Intersection 3)
         \<and> \<not> has_edge g' (Intersection 1) (Intersection 4))"
proof -
  note w = example_streets_wellformed
  from add_edges_if_los_adds[OF w, of blocks example_buildings 50]
  obtain g' where run: "add_edges_if_los_default blocks example_streets example_buildings = Inr g'"
    and iff: "\<forall>i j. i < j \<and> j < length (gnodes example_streets)
          \<and> \<not> has_edge example_streets (node_at example_streets i) (node_at example_streets j) \<longrightarrow>
          (has_edge g' (node_at example_streets i) (node_at example_streets j) \<longleftrightarrow>
             euclid (coord_at example_streets i) (coord_at example_streets j) \<le> 50
           \<and> \<not> (\<exists>p \<in> set example_buildings.
                  blocks [coord_at example_streets i, coord_at example_streets j] p))"
    by auto
  have none: "\<And>a b. \<not> has_edge example_streets a b"
    by (simp add: has_edge_def example_streets_def)
  have n: "node_at example_streets 0 = Intersection 1" "node_at example_streets 1 = Intersection 2"
    "node_at example_streets 2 = Intersection 3" "node_at example_streets 3 = Intersection 4"
    "coord_at example_streets 0 = (0, 0)" "coord_at example_streets 1 = (30, 0)"
    "coord_at example_streets 2 = (100, 0)" "coord_at example_streets 3 = (0, 40)"
    "length (gnodes example_streets) = 4"
    by (simp_all add: node_at_def coord_at_def example_streets_def)
  have "has_edge g' (Intersection 1) (Intersection 2)"
    using iff[rule_format, of 0 1] none n
    by (simp add: euclid_def example_buildings_def blocks_def)
  moreover have "\<not> has_edge g' (Intersection 1) (Intersection 3)"
    using iff[rule_format, of 0 2] none n
    by (simp add: euclid_def example_buildings_def blocks_def)
  moreover have "\<not> has_edge g' (Intersection 1) (Intersection 4)"
    using iff[rule_format, of 0 3] none n
    by (simp add: euclid_def example_buildings_def blocks_def)
  ultimately show ?thesis using run w by blast
qed

theorem add_edges_if_los_idempotent_witness:
  "distinct (map fst (gnodes example_streets))
   \<and> list_all (\<lambda>n. snd n \<noteq> None) (gnodes example_streets)
   \<and> (\<exists>g1. add_edges_if_los blocks example_streets example_buildings 50 = Inr g1
         \<and> add_edges_if_los blocks g1 example_buildings 50 = Inr g1)"
  using add_edges_if_los_idempotent[OF example_streets_wellformed, of blocks example_buildings 50]
    example_streets_wellformed by simp

subsection \<open>Segment split\<close>

text \<open>
  The ValueError of \<open>split_line_at_point\<close> is raised exactly when the point is farther
  than \<open>10\<^sup>-\<^sup>8\<close> from the line.
\<close>

lemma split_line_at_point_ValueError:
  "split_line_at_point line point = Inl ValueError \<longleftrightarrow> 1 / 10 ^ 8 < line_distance line point"
  by (simp add: split_line_at_point_def Let_def)

lemma seg_point_start: "seg_point a b 0 = a"
  by (simp add: seg_point_def)

lemma euclid_zero: "euclid a b = 0 \<longleftrightarrow> a = b"
  by (auto simp: euclid_def sum_power2_eq_zero_iff prod_eq_iff)

lemma seg_point_end: "seg_point a b (euclid a b) = b"
  by (simp add: seg_point_def euclid_zero)

lemma map_add_zero: "map ((+) (0::real)) xs = xs"
  by (induction xs) simp_all

lemma seg_param_le:
  assumes "euclid a b \<noteq> 0"
  shows "(seg_param a b p)\<^sup>2 \<le> (euclid a p)\<^sup>2"
proof -
  define x1 where "x1 = fst p - fst a"
  define x2 where "x2 = snd p - snd a"
  define y1 where "y1 = fst b - fst a"
  define y2 where "y2 = snd b - snd a"
  have L: "(euclid a b)\<^sup>2 = y1\<^sup>2 + y2\<^sup>2"
    by (simp add: euclid_def y1_def y2_def power2_commute)
  have P: "(euclid a p)\<^sup>2 = x1\<^sup>2 + x2\<^sup>2"
    by (simp add: euclid_def x1_def x2_def power2_commute)
  have pos: "0 < y1\<^sup>2 + y2\<^sup>2" using assms L by (metis zero_less_power2)
  have "(x1 * y1 + x2 * y2)\<^sup>2 + (x1 * y2 - x2 * y1)\<^sup>2 = (x1\<^sup>2 + x2\<^sup>2) * (y1\<^sup>2 + y2\<^sup>2)"
    by (simp add: power2_eq_square algebra_simps)
  then have cs: "(x1 * y1 + x2 * y2)\<^sup>2 \<le> (x1\<^sup>2 + x2\<^sup>2) * (y1\<^sup>2 + y2\<^sup>2)"
    by (metis le_add_same_cancel1 zero_le_power2)
  have "(seg_param a b p)\<^sup>2 = (x1 * y1 + x2 * y2)\<^sup>2 / (y1\<^sup>2 + y2\<^sup>2)"
    by (simp add: seg_param_def power_divide L x1_def x2_def y1_def y2_def)
  also have "\<dots> \<le> x1\<^sup>2 + x2\<^sup>2"
    using cs pos by (simp add: pos_divide_le_eq)
  finally show ?thesis using P by simp
qed

text \<open>
  Where \<open>split_line_at_point\<close> returns on a straight segment from \<open>a\<close> to \<open>b\<close>, the
  part before runs from \<open>a\<close> to a point of the segment and the part after from a later
  point of the segment to \<open>b\<close>; the gap between the two is at most \<open>2 \<sqdot> 10\<^sup>-\<^sup>8\<close> long.
\<close>

lemma split_segment_parts:
  assumes "split_line_at_point [a, b] p = Inr (before, after)"
  shows "\<exists>s e. 0 < s \<and> s \<le> e \<and> e < euclid a b \<and> e - s \<le> 2 / 10 ^ 8
           \<and> before = [a, seg_point a b s] \<and> after = [seg_point a b e, b]"
proof -
  define L where "L = euclid a b"
  define c where "c = buffer p (1 / 10 ^ 8)"
  define t where "t = seg_param a b p"
  define dd where "dd = (euclid a p)\<^sup>2 - t\<^sup>2"
  define h where "h = sqrt ((1 / 10 ^ 8)\<^sup>2 - dd)"
  define cuts where "cuts = filter (\<lambda>s. 0 < s \<and> s < L) (seg_circle_hits a b c)"
  have split: "ops_split [a, b] c =
      (if cuts = [] then [[a, b]]
       else map (\<lambda>(s, e). substring [a, b] s e) (zip (0 # cuts) (cuts @ [L])))"
    by (simp add: ops_split_def cuts_def L_def Let_def map_add_zero)
  from assms have len: "3 \<le> length (ops_split [a, b] c)"
    and parts: "before = ops_split [a, b] c ! 0" "after = ops_split [a, b] c ! 2"
    by (auto simp: split_line_at_point_def c_def Let_def split: if_splits)
  have L0: "L \<noteq> 0"
  proof
    assume "L = 0"
    then have "cuts = []" by (simp add: cuts_def seg_circle_hits_def L_def)
    with split len show False by simp
  qed
  have far: "\<not> (1 / 10 ^ 8)\<^sup>2 \<le> dd"
  proof
    assume "(1 / 10 ^ 8)\<^sup>2 \<le> dd"
    then have "cuts = []"
      using L0 by (simp add: cuts_def seg_circle_hits_def L_def c_def buffer_def dd_def t_def Let_def)
    with split len show False by simp
  qed
  have hits: "seg_circle_hits a b c = filter (\<lambda>s. 0 \<le> s \<and> s < L) [t - h, t + h]"
    using L0 far
    by (simp add: seg_circle_hits_def L_def c_def buffer_def dd_def t_def h_def Let_def)
  have cuts2: "cuts = filter (\<lambda>s. 0 < s \<and> s < L) [t - h, t + h]"
    unfolding cuts_def hits filter_filter by (rule filter_cong) auto
  have "length cuts = 2"
  proof -
    have "length cuts \<le> 2" unfolding cuts2 by simp
    moreover have "2 \<le> length cuts" using len split by (auto split: if_splits)
    ultimately show ?thesis by simp
  qed
  then have in1: "0 < t - h" "t - h < L" and in2: "0 < t + h" "t + h < L"
    and cuts3: "cuts = [t - h, t + h]"
    unfolding cuts2 by (auto split: if_splits)
  have h0: "0 \<le> h" using far by (simp add: h_def)
  have "0 \<le> dd" using seg_param_le[of a b p] L0 by (simp add: dd_def t_def L_def)
  then have "h \<le> sqrt ((1 / 10 ^ 8)\<^sup>2)" unfolding h_def by (intro real_sqrt_le_mono) simp
  then have hr: "h \<le> 1 / 10 ^ 8" by simp
  have before: "before = [a, seg_point a b (t - h)]"
    using parts(1) in1 L0 unfolding split cuts3
    by (simp add: substring_def seg_point_start L_def)
  have after: "after = [seg_point a b (t + h), b]"
    using parts(2) in2 L0 unfolding split cuts3
    by (simp add: substring_def seg_point_end L_def)
  show ?thesis
    using in1 in2 h0 hr before after unfolding L_def
    by (intro exI[of _ "t - h"] exI[of _ "t + h"]) simp
qed


lemma euclid_self: "euclid a a = 0"
  by (simp add: euclid_def)

lemma euclid_nonneg: "0 \<le> euclid a b"
  by (simp add: euclid_def)

lemma seg_param_start: "seg_param a b a = 0"
  by (simp add: seg_param_def)

lemma seg_param_end: "a \<noteq> b \<Longrightarrow> seg_param a b b = euclid a b"
proof -
  assume "a \<noteq> b"
  then have L: "euclid a b \<noteq> 0" by (simp add: euclid_zero)
  have "(euclid a b)\<^sup>2 = (fst b - fst a)\<^sup>2 + (snd b - snd a)\<^sup>2"
    by (simp add: euclid_def power2_commute)
  then have "(fst b - fst a) * (fst b - fst a) + (snd b - snd a) * (snd b - snd a)
      = euclid a b * euclid a b"
    by (simp add: power2_eq_square)
  then show ?thesis using L by (simp add: seg_param_def)
qed

lemma short_split_raises:
  assumes "line_distance line point \<le> 1 / 10 ^ 8"
    and "length (filter (\<lambda>s. 0 < s \<and> s < line_length line)
                  (circle_hits_from 0 line (buffer point (1 / 10 ^ 8)))) < 2"
  shows "split_line_at_point line point = Inl IndexError"
  using assms by (auto simp: split_line_at_point_def ops_split_def Let_def)

text \<open>
  C4 fails on the code: at the start point of a straight segment, which is on the segment
  (distance 0), \<open>split_line_at_point\<close> raises all the same. The circle around the point
  cuts the segment once, the split has two parts, and \<^verbatim>\<open>line_split[2]\<close> raises
  IndexError.
\<close>

theorem split_line_at_point_start:
  assumes "a \<noteq> b"
  shows "line_distance [a, b] a \<le> 1 / 10 ^ 8 \<and> split_line_at_point [a, b] a = Inl IndexError"
proof -
  have L: "euclid a b \<noteq> 0" "0 < euclid a b"
    using assms euclid_nonneg[of a b] by (simp_all add: euclid_zero less_le)
  have d: "line_distance [a, b] a = 0"
    using L by (simp add: seg_distance_def seg_project_def seg_param_start seg_point_start euclid_self)
  have "seg_circle_hits a b (buffer a (1 / 10 ^ 8)) = [1 / 10 ^ 8] \<or>
        seg_circle_hits a b (buffer a (1 / 10 ^ 8)) = []"
    using L by (simp add: seg_circle_hits_def buffer_def seg_param_start euclid_self Let_def)
  then have "length (filter (\<lambda>s. 0 < s \<and> s < line_length [a, b])
                  (circle_hits_from 0 [a, b] (buffer a (1 / 10 ^ 8)))) < 2"
    by (auto simp: map_add_zero)
  with d show ?thesis by (simp add: short_split_raises)
qed

text \<open>The segment from \<open>(0, 0)\<close> to \<open>(1, 0)\<close>, split at \<open>(0, 0)\<close>.\<close>

theorem split_line_at_point_start_witness:
  "((0, 0) :: coord) \<noteq> (1, 0)
   \<and> line_distance [(0, 0), (1, 0)] (0, 0) \<le> 1 / 10 ^ 8
   \<and> split_line_at_point [(0, 0), (1, 0)] (0, 0) = Inl IndexError"
  using split_line_at_point_start[of "(0, 0)" "(1, 0)"] by simp

text \<open>
  C5 fails on the code: at the end point of a straight segment, which is on the segment,
  \<open>split_line_at_point\<close> returns no parts to merge again; it raises IndexError, as the
  circle around the point cuts the segment once only.
\<close>

theorem split_line_at_point_end:
  assumes "a \<noteq> b"
  shows "line_distance [a, b] b \<le> 1 / 10 ^ 8 \<and> split_line_at_point [a, b] b = Inl IndexError"
proof -
  have L: "euclid a b \<noteq> 0" "0 < euclid a b"
    using assms euclid_nonneg[of a b] by (simp_all add: euclid_zero less_le)
  have d: "line_distance [a, b] b = 0"
    using L by (simp add: seg_distance_def seg_project_def seg_param_end[OF assms] seg_point_end
        euclid_self)
  have "seg_circle_hits a b (buffer b (1 / 10 ^ 8)) = [euclid a b - 1 / 10 ^ 8] \<or>
        seg_circle_hits a b (buffer b (1 / 10 ^ 8)) = []"
    using L by (simp add: seg_circle_hits_def buffer_def seg_param_end[OF assms] Let_def)
  then have "length (filter (\<lambda>s. 0 < s \<and> s < line_length [a, b])
                  (circle_hits_from 0 [a, b] (buffer b (1 / 10 ^ 8)))) < 2"
    by (auto simp: map_add_zero)
  with d show ?thesis by (simp add: short_split_raises)
qed

text \<open>The segment from \<open>(0, 0)\<close> to \<open>(1, 0)\<close>, split at \<open>(1, 0)\<close>.\<close>

theorem split_line_at_point_end_witness:
  "((0, 0) :: coord) \<noteq> (1, 0)
   \<and> line_distance [(0, 0), (1, 0)] (1, 0) \<le> 1 / 10 ^ 8
   \<and> split_line_at_point [(0, 0), (1, 0)] (1, 0) = Inl IndexError"
  using split_line_at_point_end[of "(0, 0)" "(1, 0)"] by simp

end
